theory Spec2Isabelle
  imports Complex_Main
begin

section \<open>JavaScript numbers\<close>

text \<open>
  A JavaScript number is an IEEE 754 double. \<open>Fin x\<close> stands for the double whose value
  is the real \<open>x\<close>; negative zero is not told apart from zero (the service never divides
  by it). Every arithmetic operation computes the exact result and rounds it to the
  nearest double, a tie going to the even mantissa.
\<close>

datatype number = Fin real | PInf | NInf | NaN

text \<open>
  \<open>ilog k b\<close> is the integer \<open>i\<close> with \<open>k\<^sup>i \<le> b < k\<^sup>i\<^sup>+\<^sup>1\<close>, found by counting divisions
  (from 1 upwards) or multiplications (below 1) by \<open>k\<close>. It is mathematics, used to place
  a real among the doubles; it is not the code's \<^verbatim>\<open>Math.log\<close>.
\<close>

function count_up :: "real \<Rightarrow> real \<Rightarrow> nat" where
  "count_up k b = (if 1 < k \<and> k \<le> b then Suc (count_up k (b / k)) else 0)"
  by pat_completeness auto
termination
proof (relation "measure (\<lambda>(k, b). nat \<lfloor>log k b\<rfloor>)")
  show "wf (measure (\<lambda>(k, b). nat \<lfloor>log k b\<rfloor>))" by simp
next
  fix k b :: real
  assume a: "1 < k \<and> k \<le> b"
  then have "log k (b / k) = log k b - 1"
    by (simp add: log_divide)
  moreover from a have "1 \<le> log k b" by simp
  ultimately have "nat \<lfloor>log k (b / k)\<rfloor> < nat \<lfloor>log k b\<rfloor>"
    by simp
  then show "((k, b / k), (k, b)) \<in> measure (\<lambda>(k, b). nat \<lfloor>log k b\<rfloor>)"
    by simp
qed

function count_down :: "real \<Rightarrow> real \<Rightarrow> nat" where
  "count_down k b = (if 1 < k \<and> 0 < b \<and> b < 1 then Suc (count_down k (b * k)) else 0)"
  by pat_completeness auto
termination
proof (relation "measure (\<lambda>(k, b). nat \<lceil>- log k b\<rceil>)")
  show "wf (measure (\<lambda>(k, b). nat \<lceil>- log k b\<rceil>))" by simp
next
  fix k b :: real
  assume a: "1 < k \<and> 0 < b \<and> b < 1"
  then have "log k (b * k) = log k b + 1"
    by (simp add: log_mult)
  moreover from a have "log k b < 0" by simp
  ultimately have "nat \<lceil>- log k (b * k)\<rceil> < nat \<lceil>- log k b\<rceil>"
    by simp
  then show "((k, b * k), (k, b)) \<in> measure (\<lambda>(k, b). nat \<lceil>- log k b\<rceil>)"
    by simp
qed

declare count_up.simps [simp del] count_down.simps [simp del]

definition ilog :: "real \<Rightarrow> real \<Rightarrow> int" where
  "ilog k b = (if 1 \<le> b then int (count_up k b) else - int (count_down k b))"

definition round_half_even :: "real \<Rightarrow> int" where
  "round_half_even x =
     (let f = \<lfloor>x\<rfloor>; d = x - of_int f
      in if d < 1 / 2 then f else if 1 / 2 < d then f + 1 else if even f then f else f + 1)"

text \<open>
  The exponent of the binade of \<open>x\<close>; below \<open>2\<^sup>-\<^sup>1\<^sup>0\<^sup>2\<^sup>2\<close> the doubles are subnormal and keep
  the spacing of that binade.
\<close>

definition binade :: "real \<Rightarrow> int" where
  "binade x = max (ilog 2 \<bar>x\<bar>) (- 1022)"

text \<open>
  Rounding a real to the nearest double: to a multiple of \<open>2\<^sup>b\<^sup>i\<^sup>n\<^sup>a\<^sup>d\<^sup>e\<^sup> \<^sup>-\<^sup> \<^sup>5\<^sup>2\<close>, and to an
  infinity when that multiple reaches \<open>2\<^sup>1\<^sup>0\<^sup>2\<^sup>4\<close>.
\<close>

definition round_double :: "real \<Rightarrow> number" where
  "round_double x =
     (if x = 0 then Fin 0
      else
        (let u = 2 powi (binade x - 52);
             r = of_int (round_half_even (\<bar>x\<bar> / u)) * u
         in if 2 ^ 1024 \<le> r then (if 0 < x then PInf else NInf) else Fin (sgn x * r)))"

definition is_double :: "real \<Rightarrow> bool" where
  "is_double x \<longleftrightarrow> round_double x = Fin x"

text \<open>
  An integer that becomes a number: a byte count of a progress event, a clock reading.
\<close>

definition js_nat :: "nat \<Rightarrow> number" where
  "js_nat n = round_double (real n)"

definition js_int :: "int \<Rightarrow> number" where
  "js_int n = round_double (of_int n)"

text \<open>\<^verbatim>\<open>a + b\<close>, \<^verbatim>\<open>a - b\<close>, \<^verbatim>\<open>a * b\<close> and \<^verbatim>\<open>a / b\<close> on numbers.\<close>

fun fadd :: "number \<Rightarrow> number \<Rightarrow> number" where
  "fadd NaN b = NaN"
| "fadd a NaN = NaN"
| "fadd (Fin a) (Fin b) = round_double (a + b)"
| "fadd (Fin a) PInf = PInf"
| "fadd (Fin a) NInf = NInf"
| "fadd PInf (Fin b) = PInf"
| "fadd NInf (Fin b) = NInf"
| "fadd PInf PInf = PInf"
| "fadd NInf NInf = NInf"
| "fadd PInf NInf = NaN"
| "fadd NInf PInf = NaN"

fun fsub :: "number \<Rightarrow> number \<Rightarrow> number" where
  "fsub NaN b = NaN"
| "fsub a NaN = NaN"
| "fsub (Fin a) (Fin b) = round_double (a - b)"
| "fsub (Fin a) PInf = NInf"
| "fsub (Fin a) NInf = PInf"
| "fsub PInf (Fin b) = PInf"
| "fsub NInf (Fin b) = NInf"
| "fsub PInf NInf = PInf"
| "fsub NInf PInf = NInf"
| "fsub PInf PInf = NaN"
| "fsub NInf NInf = NaN"

fun fmul :: "number \<Rightarrow> number \<Rightarrow> number" where
  "fmul NaN b = NaN"
| "fmul a NaN = NaN"
| "fmul (Fin a) (Fin b) = round_double (a * b)"
| "fmul (Fin a) PInf = (if a = 0 then NaN else if 0 < a then PInf else NInf)"
| "fmul (Fin a) NInf = (if a = 0 then NaN else if 0 < a then NInf else PInf)"
| "fmul PInf (Fin b) = (if b = 0 then NaN else if 0 < b then PInf else NInf)"
| "fmul NInf (Fin b) = (if b = 0 then NaN else if 0 < b then NInf else PInf)"
| "fmul PInf PInf = PInf"
| "fmul NInf NInf = PInf"
| "fmul PInf NInf = NInf"
| "fmul NInf PInf = NInf"

fun fdiv :: "number \<Rightarrow> number \<Rightarrow> number" where
  "fdiv NaN b = NaN"
| "fdiv a NaN = NaN"
| "fdiv (Fin a) (Fin b) =
     (if b = 0 then (if a = 0 then NaN else if 0 < a then PInf else NInf)
      else round_double (a / b))"
| "fdiv (Fin a) PInf = Fin 0"
| "fdiv (Fin a) NInf = Fin 0"
| "fdiv PInf (Fin b) = (if 0 \<le> b then PInf else NInf)"
| "fdiv NInf (Fin b) = (if 0 \<le> b then NInf else PInf)"
| "fdiv PInf PInf = NaN"
| "fdiv PInf NInf = NaN"
| "fdiv NInf PInf = NaN"
| "fdiv NInf NInf = NaN"

text \<open>\<^verbatim>\<open>Math.round\<close>: the nearest integer, a tie going up. \<^verbatim>\<open>Math.floor\<close>.\<close>

definition Math_round :: "number \<Rightarrow> number" where
  "Math_round x = (case x of Fin v \<Rightarrow> Fin (of_int \<lfloor>v + 1 / 2\<rfloor>) | PInf \<Rightarrow> PInf | NInf \<Rightarrow> NInf | NaN \<Rightarrow> NaN)"

definition Math_floor :: "number \<Rightarrow> number" where
  "Math_floor x = (case x of Fin v \<Rightarrow> Fin (of_int \<lfloor>v\<rfloor>) | PInf \<Rightarrow> PInf | NInf \<Rightarrow> NInf | NaN \<Rightarrow> NaN)"

text \<open>
  \<^verbatim>\<open>Math.log\<close> is approximated by each engine in its own way, so it is a parameter: \<open>lg\<close>
  is what the engine returns on the positive finite numbers. The statements below hold
  for every \<open>lg\<close> whose relative error at the arguments used is at most \<open>2\<^sup>-\<^sup>5\<^sup>0\<close>
  (\<open>log_accurate\<close>; four units in the last place).
\<close>

definition Math_log :: "(real \<Rightarrow> real) \<Rightarrow> number \<Rightarrow> number" where
  "Math_log lg x =
     (case x of
        Fin v \<Rightarrow> if v < 0 then NaN else if v = 0 then NInf else Fin (lg v)
      | PInf \<Rightarrow> PInf
      | NInf \<Rightarrow> NaN
      | NaN \<Rightarrow> NaN)"

definition log_accurate :: "(real \<Rightarrow> real) \<Rightarrow> real \<Rightarrow> bool" where
  "log_accurate lg x \<longleftrightarrow> \<bar>lg x - ln x\<bar> \<le> \<bar>ln x\<bar> / 2 ^ 50"

text \<open>
  \<^verbatim>\<open>Math.pow(k, i)\<close> for a base \<open>k\<close> above 1, rounded to the nearest double. The source
  raises 1024 to integer powers only; they are powers of two, and outside the range of
  the doubles they become \<^verbatim>\<open>Infinity\<close> or 0.
\<close>

definition Math_pow :: "real \<Rightarrow> number \<Rightarrow> number" where
  "Math_pow k i =
     (case i of Fin v \<Rightarrow> round_double (k powr v) | PInf \<Rightarrow> PInf | NInf \<Rightarrow> Fin 0 | NaN \<Rightarrow> NaN)"

text \<open>
  The digits of a positive double in the string of a number: \<open>k\<close> digits \<open>s\<close> and an
  exponent \<open>n\<close> with \<open>s * 10\<^sup>n\<^sup>-\<^sup>k\<close> rounding to the double, \<open>k\<close> as small as possible. With the
  least \<open>k\<close>, every such \<open>s\<close> has the same first digit.
\<close>

definition digits_of :: "real \<Rightarrow> nat \<Rightarrow> int \<Rightarrow> int \<Rightarrow> bool" where
  "digits_of x k s n \<longleftrightarrow>
     1 \<le> k \<and> 10 ^ (k - 1) \<le> s \<and> s < 10 ^ k \<and>
     round_double (of_int s * 10 powi (n - int k)) = Fin x"

definition leading_digit :: "real \<Rightarrow> int" where
  "leading_digit x =
     (let k = (LEAST k. \<exists>s n. digits_of x k s n)
      in THE d. \<exists>s n. digits_of x k s n \<and> d = s div 10 ^ (k - 1))"

definition trunc_int :: "real \<Rightarrow> int" where
  "trunc_int v = (if 0 \<le> v then \<lfloor>v\<rfloor> else \<lceil>v\<rceil>)"

text \<open>
  \<^verbatim>\<open>parseInt(x as any, 10)\<close> first turns the number into its string. For a finite value
  between \<open>10\<^sup>-\<^sup>6\<close> and \<open>10\<^sup>2\<^sup>1\<close> in magnitude that string is plain decimal notation and
  the integer part is read back; outside that range the string is in exponent notation
  and only its leading digit is read. A non-finite value gives \<open>NaN\<close>.
\<close>

definition parseInt :: "number \<Rightarrow> number" where
  "parseInt x =
     (case x of
        Fin v \<Rightarrow>
          if v = 0 then Fin 0
          else if 1 / 10 ^ 6 \<le> \<bar>v\<bar> \<and> \<bar>v\<bar> < 10 ^ 21 then Fin (of_int (trunc_int v))
          else Fin (sgn v * of_int (leading_digit \<bar>v\<bar>))
      | _ \<Rightarrow> NaN)"

section \<open>humanizeBytes\<close>

definition sizes :: "string list" where
  "sizes = [''Bytes'', ''KB'', ''MB'', ''GB'', ''TB'', ''PB'']"

text \<open>
  \<^verbatim>\<open>sizes[i]\<close>: \<open>None\<close> is JavaScript's \<^verbatim>\<open>undefined\<close>, read at an index that is not one of
  0 to 5.
\<close>

definition sizes_at :: "number \<Rightarrow> string option" where
  "sizes_at i =
     (case i of
        Fin v \<Rightarrow>
          if of_int \<lfloor>v\<rfloor> = v \<and> 0 \<le> v \<and> v < real (length sizes) then Some (sizes ! nat \<lfloor>v\<rfloor>)
          else None
      | _ \<Rightarrow> None)"

text \<open>String concatenation prints \<^verbatim>\<open>undefined\<close> by name.\<close>

definition string_of_unit :: "string option \<Rightarrow> string" where
  "string_of_unit u = (case u of None \<Rightarrow> ''undefined'' | Some s \<Rightarrow> s)"

definition digit :: "nat \<Rightarrow> char" where
  "digit d = ''0123456789'' ! d"

fun string_of_nat :: "nat \<Rightarrow> string" where
  "string_of_nat n =
     (if n < 10 then [digit n] else string_of_nat (n div 10) @ [digit (n mod 10)])"

declare string_of_nat.simps [simp del]

text \<open>
  \<^verbatim>\<open>x.toFixed(2)\<close> picks the integer \<open>n\<close> with \<open>n / 100\<close> nearest to \<open>x\<close>, the larger one
  on a tie; the model keeps \<open>n\<close>.
\<close>

definition toFixed2 :: "real \<Rightarrow> int" where
  "toFixed2 x = \<lfloor>x * 100 + 1 / 2\<rfloor>"

text \<open>The decimal notation of \<open>n / 100\<close> without trailing zeros, for \<open>n \<ge> 0\<close>.\<close>

definition string_of_hundredths :: "int \<Rightarrow> string" where
  "string_of_hundredths n =
     (let ip = nat (n div 100); fp = nat (n mod 100)
      in string_of_nat ip @
         (if fp = 0 then []
          else if fp mod 10 = 0 then ''.'' @ [digit (fp div 10)]
          else ''.'' @ [digit (fp div 10), digit (fp mod 10)]))"

text \<open>
  \<^verbatim>\<open>parseFloat(x.toFixed(2)) + ''\<close>: the digits of \<^verbatim>\<open>toFixed\<close> are read back as a number
  and printed again, which drops the trailing zeros (and the sign of a zero). This holds
  for magnitudes below \<open>10\<^sup>1\<^sup>3\<close>, where the fifteen digits at most survive the way through
  the double; \<^verbatim>\<open>humanizeBytes\<close> stays below \<open>2\<^sup>2\<^sup>1\<close> for every accurate \<^verbatim>\<open>Math.log\<close>. The
  digits JavaScript prints for larger magnitudes are not modelled.
\<close>

definition fixed2_string :: "number \<Rightarrow> string" where
  "fixed2_string x =
     (case x of
        Fin v \<Rightarrow>
          (if v < 0 \<and> toFixed2 \<bar>v\<bar> \<noteq> 0 then ''-'' else []) @ string_of_hundredths (toFixed2 \<bar>v\<bar>)
      | PInf \<Rightarrow> ''Infinity''
      | NInf \<Rightarrow> ''-Infinity''
      | NaN \<Rightarrow> ''NaN'')"

text \<open>
  \<^verbatim>\<open>humanizeBytes(bytes)\<close> on an engine whose \<^verbatim>\<open>Math.log\<close> is \<open>lg\<close>. A negative or
  non-finite argument makes the logarithm or the quotients \<open>NaN\<close> or infinite.
\<close>

definition humanizeBytes :: "(real \<Rightarrow> real) \<Rightarrow> number \<Rightarrow> string" where
  "humanizeBytes lg bytes =
     (if bytes = Fin 0 then ''0 Byte''
      else
        (let k = 1024;
             i = Math_floor (fdiv (Math_log lg bytes) (Math_log lg (Fin k)))
         in fixed2_string (fdiv bytes (Math_pow k i)) @ '' '' @ string_of_unit (sizes_at i)))"

section \<open>Data model\<close>

datatype UploadStatus = Queue | Uploading | Done

text \<open>In \<open>speed\<close> and \<open>speedHuman\<close>, \<open>None\<close> is \<^verbatim>\<open>null\<close>.\<close>

record ProgressData =
  percentage :: number
  speed :: "number option"
  speedHuman :: "string option"

record UploadProgress =
  status :: UploadStatus
  data :: "ProgressData option"

record UploadFile =
  file_id :: string
  fileIndex :: nat
  lastModifiedDate :: int
  file_name :: string
  file_size :: nat
  file_type :: string
  progress :: UploadProgress

text \<open>A browser \<^verbatim>\<open>File\<close>, the raw source of the bytes.\<close>

record File =
  raw_name :: string
  raw_size :: nat
  raw_type :: string
  raw_lastModifiedDate :: int

text \<open>
  \<^verbatim>\<open>UploadFile\<close> objects are shared by reference between \<^verbatim>\<open>files\<close>, \<^verbatim>\<open>uploads\<close>, the
  closure of a running upload and the caller, and the upload assigns to their
  \<^verbatim>\<open>progress\<close>. So they live in a store. \<open>Entry n\<close> is the \<open>n\<close>-th object made by
  \<^verbatim>\<open>handleFiles\<close>; \<open>Foreign n\<close> is an object the caller built.
\<close>

datatype ref = Entry nat | Foreign nat

datatype output_type =
  Ev_addedToQueue | Ev_allAddedToQueue | Ev_uploading | Ev_done | Ev_removed | Ev_start
  | Ev_cancelled

text \<open>An emitted event is recorded with the value its file object has when it is emitted.\<close>

record UploadOutput =
  out_type :: output_type
  out_file :: "UploadFile option"

datatype input_type = In_uploadAll | In_uploadFile | In_cancel | In_cancelAll

record UploadInput =
  in_type :: input_type
  in_id :: "string option"
  in_fileIndex :: "nat option"
  in_file :: "ref option"
  in_url :: "string option"
  in_method :: "string option"

text \<open>
  \<^verbatim>\<open>this.fileList\<close> is not set by the constructor, is a \<^verbatim>\<open>FileList\<close> after \<^verbatim>\<open>handleFiles\<close>,
  an \<^verbatim>\<open>Array\<close> after a cancel (the result of \<^verbatim>\<open>[].filter.call\<close>) and \<^verbatim>\<open>null\<close> after
  cancelAll. Only a \<^verbatim>\<open>FileList\<close> has the method \<^verbatim>\<open>item\<close>.
\<close>

datatype fileList_value =
  FL_undefined | FL_null | FL_FileList "File list" | FL_Array "File list"

text \<open>
  One subscription to the observable of \<^verbatim>\<open>uploadFile\<close>: the variables its closure
  captures (\<open>run_file\<close>, \<open>time\<close>, \<open>load\<close>), the request handed to the \<^verbatim>\<open>XMLHttpRequest\<close>,
  whether the subscriber has stopped (\<open>closed\<close>: after \<^verbatim>\<open>complete\<close> or \<^verbatim>\<open>unsubscribe\<close>) and
  whether the teardown has called \<^verbatim>\<open>xhr.abort()\<close>. In \<open>sent\<close>, \<open>None\<close> says that \<^verbatim>\<open>send\<close>
  did not go through, \<open>Some None\<close> that the body was \<^verbatim>\<open>null\<close>.
\<close>

record run =
  run_file :: ref
  time :: number
  load :: number
  xhr_method :: string
  xhr_url :: "string option"
  sent :: "File option option"
  closed :: bool
  aborted :: bool

record upload =
  up_file :: ref
  up_sub :: nat

text \<open>
  The service with everything it refers to. \<open>serviceEvents\<close> is the list of the events
  emitted so far, oldest first. \<open>subscriptions\<close> holds every run started so far; a
  \<^verbatim>\<open>Subscription\<close> is the position of its run. \<open>random\<close> is what the successive calls of
  \<^verbatim>\<open>Math.random().toString(36).substring(7)\<close> return, \<open>generated\<close> how many were made.
  \<open>math_log\<close> is the \<^verbatim>\<open>Math.log\<close> of the engine the service runs on.
\<close>

record NgUploaderService =
  fileList :: fileList_value
  files :: "ref list"
  uploads :: "upload list"
  serviceEvents :: "UploadOutput list"
  heap :: "ref \<Rightarrow> UploadFile"
  allocated :: nat
  subscriptions :: "run list"
  random :: "nat \<Rightarrow> string"
  generated :: nat
  math_log :: "real \<Rightarrow> real"

datatype exn = TypeError | DOMException

text \<open>
  What the surroundings decide during one command: the clock reading and the behaviour
  of the \<open>k\<close>-th \<^verbatim>\<open>XMLHttpRequest\<close> made while the command is handled. A request can
  throw in \<^verbatim>\<open>open\<close>, in \<^verbatim>\<open>setRequestHeader\<close> or in \<^verbatim>\<open>send\<close>.
\<close>

datatype xhr_fault = OpenThrows | SetRequestHeaderThrows | SendThrows

record env =
  now :: "nat \<Rightarrow> int"
  fault :: "nat \<Rightarrow> xhr_fault option"

text \<open>What the upload object of a request reports: a progress tick or the final load.\<close>

datatype transport_event = Progress bool nat nat | Load

section \<open>The service\<close>

definition constructor ::
  "(nat \<Rightarrow> string) \<Rightarrow> (real \<Rightarrow> real) \<Rightarrow> (ref \<Rightarrow> UploadFile) \<Rightarrow> NgUploaderService" where
  "constructor rnd lg objs =
     \<lparr>fileList = FL_undefined, files = [], uploads = [], serviceEvents = [], heap = objs,
      allocated = 0, subscriptions = [], random = rnd, generated = 0, math_log = lg\<rparr>"

definition emit :: "UploadOutput \<Rightarrow> NgUploaderService \<Rightarrow> NgUploaderService" where
  "emit ev s = s\<lparr>serviceEvents := serviceEvents s @ [ev]\<rparr>"

definition generateId :: "NgUploaderService \<Rightarrow> string \<times> NgUploaderService" where
  "generateId s = (random s (generated s), s\<lparr>generated := Suc (generated s)\<rparr>)"

subsection \<open>handleFiles\<close>

fun handleFiles_map :: "File list \<Rightarrow> nat \<Rightarrow> NgUploaderService \<Rightarrow> ref list \<times> NgUploaderService" where
  "handleFiles_map [] i s = ([], s)"
| "handleFiles_map (file # rest) i s =
     (let (new_id, s1) = generateId s;
          uploadFile =
            \<lparr>file_id = new_id, fileIndex = i,
             lastModifiedDate = raw_lastModifiedDate file,
             file_name = raw_name file, file_size = raw_size file, file_type = raw_type file,
             progress =
               \<lparr>status = Queue,
                data = Some \<lparr>percentage = Fin 0, speed = None, speedHuman = None\<rparr>\<rparr>\<rparr>;
          r = Entry (allocated s1);
          s2 = s1\<lparr>heap := (heap s1)(r := uploadFile), allocated := Suc (allocated s1)\<rparr>;
          s3 = emit \<lparr>out_type = Ev_addedToQueue, out_file = Some uploadFile\<rparr> s2;
          (refs, s4) = handleFiles_map rest (Suc i) s3
      in (r # refs, s4))"

definition handleFiles :: "File list \<Rightarrow> NgUploaderService \<Rightarrow> NgUploaderService" where
  "handleFiles fs s =
     (let s1 = s\<lparr>fileList := FL_FileList fs\<rparr>;
          (refs, s2) = handleFiles_map fs 0 s1;
          s3 = s2\<lparr>files := refs\<rparr>
      in emit \<lparr>out_type = Ev_allAddedToQueue, out_file = None\<rparr> s3)"

subsection \<open>The subscriber of one run\<close>

text \<open>
  The teardown returned by the observable aborts the request. After \<^verbatim>\<open>abort()\<close> an
  \<^verbatim>\<open>XMLHttpRequest\<close> reports neither progress nor load.
\<close>

definition teardown :: "run \<Rightarrow> run" where
  "teardown r = r\<lparr>aborted := True\<rparr>"

definition unsubscribe :: "nat \<Rightarrow> NgUploaderService \<Rightarrow> NgUploaderService" where
  "unsubscribe sub s =
     (if sub < length (subscriptions s) then
        s\<lparr>subscriptions :=
            (subscriptions s)[sub := teardown ((subscriptions s ! sub)\<lparr>closed := True\<rparr>)]\<rparr>
      else s)"

text \<open>
  \<^verbatim>\<open>observer.next\<close> reaches the callback of \<^verbatim>\<open>initInputEvents\<close>, which emits the value on
  \<^verbatim>\<open>serviceEvents\<close>; a stopped subscriber drops it.
\<close>

definition observer_next :: "nat \<Rightarrow> UploadOutput \<Rightarrow> NgUploaderService \<Rightarrow> NgUploaderService" where
  "observer_next sub v s =
     (if sub < length (subscriptions s) \<and> \<not> closed (subscriptions s ! sub) then emit v s
      else s)"

definition observer_complete :: "nat \<Rightarrow> NgUploaderService \<Rightarrow> NgUploaderService" where
  "observer_complete sub s = unsubscribe sub s"

subsection \<open>uploadFile\<close>

text \<open>\<^verbatim>\<open>this.fileList.item(i)\<close>: a \<^verbatim>\<open>TypeError\<close> unless \<^verbatim>\<open>fileList\<close> is a \<^verbatim>\<open>FileList\<close>.\<close>

definition fileList_item :: "fileList_value \<Rightarrow> nat \<Rightarrow> exn + File option" where
  "fileList_item fl i =
     (case fl of
        FL_FileList fs \<Rightarrow> Inr (if i < length fs then Some (fs ! i) else None)
      | _ \<Rightarrow> Inl TypeError)"

text \<open>
  Subscribing to \<^verbatim>\<open>uploadFile(file, url, method)\<close>. \<^verbatim>\<open>open\<close> and \<^verbatim>\<open>setRequestHeader\<close> are
  outside the \<^verbatim>\<open>try\<close>: what they throw leaves \<^verbatim>\<open>subscribe\<close>. What \<^verbatim>\<open>send\<close> or its argument
  throws is caught and completes the observer; the teardown then runs at once.
\<close>

definition subscribe_uploadFile ::
  "int \<Rightarrow> xhr_fault option \<Rightarrow> ref \<Rightarrow> string option \<Rightarrow> string option \<Rightarrow> NgUploaderService
     \<Rightarrow> (exn \<times> NgUploaderService) + (nat \<times> NgUploaderService)" where
  "subscribe_uploadFile t flt file url method s =
     (let r = \<lparr>run_file = file, time = js_int t, load = Fin 0,
               xhr_method = (case method of None \<Rightarrow> ''POST'' | Some m \<Rightarrow> m), xhr_url = url,
               sent = None, closed = False, aborted = False\<rparr>;
          sub = length (subscriptions s)
      in if flt = Some OpenThrows then Inl (DOMException, s)
         else if flt = Some SetRequestHeaderThrows then Inl (DOMException, s)
         else
           (case fileList_item (fileList s) (fileIndex (heap s file)) of
              Inl e \<Rightarrow>
                Inr (sub, observer_complete sub (s\<lparr>subscriptions := subscriptions s @ [r]\<rparr>))
            | Inr body \<Rightarrow>
                if flt = Some SendThrows then
                  Inr (sub, observer_complete sub (s\<lparr>subscriptions := subscriptions s @ [r]\<rparr>))
                else Inr (sub, s\<lparr>subscriptions := subscriptions s @ [r\<lparr>sent := Some body\<rparr>]\<rparr>)))"

definition on_progress ::
  "int \<Rightarrow> nat \<Rightarrow> bool \<Rightarrow> nat \<Rightarrow> nat \<Rightarrow> NgUploaderService \<Rightarrow> NgUploaderService" where
  "on_progress t sub lengthComputable e_loaded e_total s =
     (if lengthComputable then
        (let r = subscriptions s ! sub;
             file = run_file r;
             percentage = Math_round (fdiv (fmul (js_nat e_loaded) (Fin 100)) (js_nat e_total));
             diff = fsub (js_int t) (time r);
             time' = fadd (time r) diff;
             load' = fsub (js_nat e_loaded) (load r);
             speed' = parseInt (fmul (fdiv load' diff) (Fin 1000));
             s1 = s\<lparr>subscriptions := (subscriptions s)[sub := r\<lparr>time := time', load := load'\<rparr>],
                   heap := (heap s)(file := (heap s file)
                     \<lparr>progress :=
                        \<lparr>status = Uploading,
                         data = Some \<lparr>percentage = percentage, speed = Some speed',
                                      speedHuman =
                                        Some (humanizeBytes (math_log s) speed' @ ''/s'')\<rparr>\<rparr>\<rparr>)\<rparr>
         in observer_next sub \<lparr>out_type = Ev_uploading, out_file = Some (heap s1 file)\<rparr> s1)
      else s)"

definition on_load :: "nat \<Rightarrow> NgUploaderService \<Rightarrow> NgUploaderService" where
  "on_load sub s =
     (let file = run_file (subscriptions s ! sub);
          s1 = s\<lparr>heap := (heap s)(file := (heap s file)
                 \<lparr>progress :=
                    \<lparr>status = Done,
                     data = Some \<lparr>percentage = Fin 100, speed = None, speedHuman = None\<rparr>\<rparr>\<rparr>)\<rparr>;
          s2 = observer_next sub \<lparr>out_type = Ev_done, out_file = Some (heap s1 file)\<rparr> s1
      in observer_complete sub s2)"

text \<open>
  The request of run \<open>sub\<close> reports \<open>ev\<close> while the clock reads \<open>t\<close>. An aborted request
  (or one that does not exist) reports nothing.
\<close>

definition xhr_upload_event ::
  "int \<Rightarrow> nat \<Rightarrow> transport_event \<Rightarrow> NgUploaderService \<Rightarrow> NgUploaderService" where
  "xhr_upload_event t sub ev s =
     (if sub < length (subscriptions s) \<and> \<not> aborted (subscriptions s ! sub) then
        (case ev of
           Progress lengthComputable e_loaded e_total \<Rightarrow>
             on_progress t sub lengthComputable e_loaded e_total s
         | Load \<Rightarrow> on_load sub s)
      else s)"

fun xhr_upload_events ::
  "(int \<times> transport_event) list \<Rightarrow> nat \<Rightarrow> NgUploaderService \<Rightarrow> NgUploaderService" where
  "xhr_upload_events [] sub s = s"
| "xhr_upload_events ((t, ev) # evs) sub s = xhr_upload_events evs sub (xhr_upload_event t sub ev s)"

subsection \<open>initInputEvents\<close>

definition push_upload :: "ref \<Rightarrow> nat \<Rightarrow> NgUploaderService \<Rightarrow> NgUploaderService" where
  "push_upload file sub s = s\<lparr>uploads := uploads s @ [\<lparr>up_file = file, up_sub = sub\<rparr>]\<rparr>"

text \<open>\<^verbatim>\<open>xs.findIndex(p)\<close>; \<open>None\<close> is \<open>-1\<close>.\<close>

fun findIndex :: "('a \<Rightarrow> bool) \<Rightarrow> 'a list \<Rightarrow> nat option" where
  "findIndex p [] = None"
| "findIndex p (x # xs) =
     (if p x then Some 0 else map_option Suc (findIndex p xs))"

text \<open>\<^verbatim>\<open>xs.splice(index, 1)\<close>: nothing is removed when \<open>index\<close> is past the end.\<close>

definition splice1 :: "nat \<Rightarrow> 'a list \<Rightarrow> 'a list" where
  "splice1 index xs = take index xs @ drop (Suc index) xs"

text \<open>\<^verbatim>\<open>[].filter.call(xs, (x, i) => p(i))\<close>\<close>

definition filter_index :: "(nat \<Rightarrow> bool) \<Rightarrow> 'a list \<Rightarrow> 'a list" where
  "filter_index p xs = map fst (filter (\<lambda>(x, i). p i) (zip xs [0..<length xs]))"

text \<open>The same call on \<^verbatim>\<open>this.fileList\<close>: a \<^verbatim>\<open>TypeError\<close> on \<^verbatim>\<open>null\<close> and \<^verbatim>\<open>undefined\<close>.\<close>

definition fileList_filter :: "(nat \<Rightarrow> bool) \<Rightarrow> fileList_value \<Rightarrow> exn + fileList_value" where
  "fileList_filter p fl =
     (case fl of
        FL_FileList fs \<Rightarrow> Inr (FL_Array (filter_index p fs))
      | FL_Array fs \<Rightarrow> Inr (FL_Array (filter_index p fs))
      | _ \<Rightarrow> Inl TypeError)"

text \<open>The body of \<^verbatim>\<open>this.files.forEach\<close> in the case \<^verbatim>\<open>uploadAll\<close>, from the \<open>k\<close>-th file on.\<close>

fun uploadAll_forEach ::
  "env \<Rightarrow> nat \<Rightarrow> string option \<Rightarrow> string option \<Rightarrow> ref list \<Rightarrow> NgUploaderService
     \<Rightarrow> (exn \<times> NgUploaderService) + NgUploaderService" where
  "uploadAll_forEach e k url method [] s = Inr s"
| "uploadAll_forEach e k url method (file # rest) s =
     (let s1 = emit \<lparr>out_type = Ev_start, out_file = Some (heap s file)\<rparr> s
      in case subscribe_uploadFile (now e k) (fault e k) file url method s1 of
           Inl x \<Rightarrow> Inl x
         | Inr (subscription, s2) \<Rightarrow>
             uploadAll_forEach e (Suc k) url method rest (push_upload file subscription s2))"

text \<open>The body of \<^verbatim>\<open>this.uploads.forEach\<close> in the case \<^verbatim>\<open>cancelAll\<close>.\<close>

fun cancelAll_forEach :: "upload list \<Rightarrow> NgUploaderService \<Rightarrow> NgUploaderService" where
  "cancelAll_forEach [] s = s"
| "cancelAll_forEach (u # us) s =
     (let s1 = unsubscribe (up_sub u) s;
          s2 = emit \<lparr>out_type = Ev_cancelled, out_file = Some (heap s1 (up_file u))\<rparr> s1
      in cancelAll_forEach us s2)"

text \<open>
  The callback that \<^verbatim>\<open>initInputEvents\<close> subscribes to the input. \<open>Inl (x, s')\<close> says that
  the exception \<open>x\<close> left the callback with the service in state \<open>s'\<close>. In the case
  \<^verbatim>\<open>uploadFile\<close> with no file, \<^verbatim>\<open>file.type\<close> throws after \<^verbatim>\<open>open\<close>.
\<close>

definition dispatch ::
  "env \<Rightarrow> UploadInput \<Rightarrow> NgUploaderService \<Rightarrow> (exn \<times> NgUploaderService) + NgUploaderService" where
  "dispatch e event s =
     (case in_type event of
        In_uploadFile \<Rightarrow>
          (let s1 = emit \<lparr>out_type = Ev_start, out_file = map_option (heap s) (in_file event)\<rparr> s
           in case in_file event of
                None \<Rightarrow>
                  Inl (if fault e 0 = Some OpenThrows then DOMException else TypeError, s1)
              | Some file \<Rightarrow>
                  (case subscribe_uploadFile (now e 0) (fault e 0) file (in_url event)
                          (in_method event) s1 of
                     Inl x \<Rightarrow> Inl x
                   | Inr (sub, s2) \<Rightarrow> Inr (push_upload file sub s2)))
      | In_uploadAll \<Rightarrow> uploadAll_forEach e 0 (in_url event) (in_method event) (files s) s
      | In_cancel \<Rightarrow>
          (case in_id event of
             None \<Rightarrow> Inr s
           | Some id' \<Rightarrow>
               if id' = [] then Inr s
               else
                 (case findIndex (\<lambda>upload. file_id (heap s (up_file upload)) = id') (uploads s) of
                    None \<Rightarrow> Inr s
                  | Some index \<Rightarrow>
                      (let s1 = unsubscribe (up_sub (uploads s ! index)) s;
                           s2 = emit \<lparr>out_type = Ev_cancelled,
                                      out_file = Some (heap s1 (up_file (uploads s1 ! index)))\<rparr> s1;
                           s3 = s2\<lparr>uploads := splice1 index (uploads s2)\<rparr>
                       in case fileList_filter (\<lambda>i. i \<noteq> index) (fileList s3) of
                            Inl x \<Rightarrow> Inl (x, s3)
                          | Inr fl \<Rightarrow>
                              Inr (s3\<lparr>fileList := fl, files := splice1 index (files s3)\<rparr>))))
      | In_cancelAll \<Rightarrow>
          (let s1 = cancelAll_forEach (uploads s) s
           in Inr (s1\<lparr>uploads := [], fileList := FL_null, files := []\<rparr>)))"

text \<open>The state a command leaves behind, whether or not it threw.\<close>

definition state_after :: "(exn \<times> NgUploaderService) + NgUploaderService \<Rightarrow> NgUploaderService" where
  "state_after res = (case res of Inl (x, s) \<Rightarrow> s | Inr s \<Rightarrow> s)"

section \<open>Vocabulary of the statements\<close>

text \<open>The entry that \<^verbatim>\<open>handleFiles\<close> builds for the \<open>k\<close>-th file of a batch, given its id.\<close>

definition queued_entry :: "string \<Rightarrow> nat \<Rightarrow> File \<Rightarrow> UploadFile" where
  "queued_entry i k file =
     \<lparr>file_id = i, fileIndex = k, lastModifiedDate = raw_lastModifiedDate file,
      file_name = raw_name file, file_size = raw_size file, file_type = raw_type file,
      progress = \<lparr>status = Queue, data = Some \<lparr>percentage = Fin 0, speed = None, speedHuman = None\<rparr>\<rparr>\<rparr>"

definition entry_status :: "NgUploaderService \<Rightarrow> ref \<Rightarrow> UploadStatus" where
  "entry_status s f = status (progress (heap s f))"



text \<open>A run whose subscriber has not stopped and whose request has not been aborted.\<close>

definition live :: "NgUploaderService \<Rightarrow> nat \<Rightarrow> bool" where
  "live s sub \<longleftrightarrow>
     sub < length (subscriptions s) \<and> \<not> closed (subscriptions s ! sub) \<and>
     \<not> aborted (subscriptions s ! sub)"



definition done_progress :: UploadProgress where
  "done_progress = \<lparr>status = Done, data = Some \<lparr>percentage = Fin 100, speed = None, speedHuman = None\<rparr>\<rparr>"

text \<open>The speed an \<^verbatim>\<open>uploading\<close> event carries.\<close>

definition event_speed :: "UploadOutput \<Rightarrow> number option" where
  "event_speed ev =
     (case out_file ev of
        None \<Rightarrow> None
      | Some f \<Rightarrow> (case data (progress f) of None \<Rightarrow> None | Some d \<Rightarrow> speed d))"

text \<open>
  The speed as the specification words it, not taken from the code: the bytes transferred
  since the previous tick, divided by the milliseconds since the previous tick, times
  1000, cut to an integer.
\<close>

definition instantaneous_speed :: "nat \<Rightarrow> nat \<Rightarrow> int \<Rightarrow> int \<Rightarrow> number" where
  "instantaneous_speed previous_loaded loaded_now previous_time time_now =
     parseInt (fmul (fdiv (Fin (real loaded_now - real previous_loaded))
                          (Fin (of_int (time_now - previous_time)))) (Fin 1000))"

section \<open>Example inputs\<close>

text \<open>
  Two files are queued in a fresh service whose id source yields \<^verbatim>\<open>ida\<close>, \<^verbatim>\<open>idb\<close>,
  \<^verbatim>\<open>idc\<close>, \<^verbatim>\<open>idc\<close>, ...; then either the second entry or every entry is started.
\<close>

text \<open>An engine whose \<^verbatim>\<open>Math.log\<close> is correctly rounded.\<close>

definition ex_log :: "real \<Rightarrow> real" where
  "ex_log x = (case round_double (ln x) of Fin r \<Rightarrow> r | _ \<Rightarrow> 0)"

definition ex_a :: File where
  "ex_a = \<lparr>raw_name = ''a.txt'', raw_size = 100, raw_type = ''text/plain'', raw_lastModifiedDate = 0\<rparr>"

definition ex_b :: File where
  "ex_b = \<lparr>raw_name = ''b.txt'', raw_size = 200, raw_type = ''text/plain'', raw_lastModifiedDate = 0\<rparr>"

definition ex_ids :: "nat \<Rightarrow> string" where
  "ex_ids n = (if n = 0 then ''ida'' else if n = 1 then ''idb'' else ''idc'')"

definition ex_blank :: UploadFile where
  "ex_blank = \<lparr>file_id = '''', fileIndex = 0, lastModifiedDate = 0, file_name = '''', file_size = 0,
     file_type = '''', progress = \<lparr>status = Queue, data = None\<rparr>\<rparr>"

definition ex_env :: env where
  "ex_env = \<lparr>now = (\<lambda>k. 0), fault = (\<lambda>k. None)\<rparr>"


definition ex_input :: "input_type \<Rightarrow> UploadInput" where
  "ex_input t = \<lparr>in_type = t, in_id = None, in_fileIndex = None, in_file = None,
     in_url = Some ''/upload'', in_method = None\<rparr>"

definition ex_cancel_b :: UploadInput where
  "ex_cancel_b = (ex_input In_cancel)\<lparr>in_id := Some ''idb''\<rparr>"


definition ex_queued :: NgUploaderService where
  "ex_queued = handleFiles [ex_a, ex_b] (constructor ex_ids ex_log (\<lambda>r. ex_blank))"

definition ex_started_b :: NgUploaderService where
  "ex_started_b = state_after (dispatch ex_env ((ex_input In_uploadFile)\<lparr>in_file := Some (Entry 1)\<rparr>) ex_queued)"

definition ex_started_all :: NgUploaderService where
  "ex_started_all = state_after (dispatch ex_env (ex_input In_uploadAll) ex_queued)"

definition ex_ticks :: "(int \<times> transport_event) list" where
  "ex_ticks = [(1000, Progress True 1000 4000), (2000, Progress True 2000 4000),
               (3000, Progress True 3000 4000)]"



text \<open>The second entry is started and its upload runs to the end.\<close>

definition ex_done_b :: NgUploaderService where
  "ex_done_b = xhr_upload_event 500 0 Load ex_started_b"


section \<open>Properties of the numbers\<close>

lemma count_up_bracket:
  "1 < k \<Longrightarrow> 1 \<le> b \<Longrightarrow> k ^ count_up k b \<le> b \<and> b < k ^ Suc (count_up k b)"
proof (induction k b rule: count_up.induct)
  case (1 k b)
  show ?case
  proof (cases "k \<le> b")
    case True
    with 1 have "k ^ count_up k (b / k) \<le> b / k \<and> b / k < k ^ Suc (count_up k (b / k))"
      by simp
    moreover have "count_up k b = Suc (count_up k (b / k))"
      using True 1(2) by (subst count_up.simps) simp
    ultimately show ?thesis
      using 1(2) by (simp add: field_simps)
  next
    case False
    then have "count_up k b = 0" by (subst count_up.simps) simp
    with False 1 show ?thesis by simp
  qed
qed

lemma count_down_bracket:
  "1 < k \<Longrightarrow> 0 < b \<Longrightarrow> b < 1 \<Longrightarrow>
     k powi (- int (count_down k b)) \<le> b \<and> b < k powi (- int (count_down k b) + 1)"
proof (induction k b rule: count_down.induct)
  case (1 k b)
  define d where "d = count_down k (b * k)"
  define p where "p = k powi (- int d)"
  define q where "q = k powi (- int d + 1)"
  have c: "count_down k b = Suc d"
    using 1(2-4) unfolding d_def by (subst count_down.simps) simp
  have k: "0 < k" "k \<noteq> 0" using 1(2) by simp_all
  have "k powi (- int d + - 1) = k powi (- int d) * k powi (- 1)"
    using k(2) by (intro power_int_add) simp
  then have e1: "k powi (- int (Suc d)) = p / k"
    by (simp add: p_def field_simps)
  have "k powi ((- int d + 1) + - 1) = k powi (- int d + 1) * k powi (- 1)"
    using k(2) by (intro power_int_add) simp
  then have e2: "k powi (- int (Suc d) + 1) = q / k"
    by (simp add: q_def field_simps)
  have "p / k \<le> b \<and> b < q / k"
  proof (cases "b * k < 1")
    case True
    with 1 have "p \<le> b * k \<and> b * k < q"
      by (simp add: p_def q_def d_def mult_pos_pos)
    then show ?thesis
      using k(1) by (simp add: pos_divide_le_eq pos_less_divide_eq)
  next
    case False
    then have "d = 0" unfolding d_def by (subst count_down.simps) simp
    then have "p = 1" "q = k" by (simp_all add: p_def q_def)
    with False 1(4) k(1) show ?thesis
      by (simp add: pos_divide_le_eq)
  qed
  then show ?case unfolding c e1 e2 .
qed

lemma ilog_bracket:
  assumes "1 < k" "0 < b"
  shows "k powi ilog k b \<le> b" and "b < k powi (ilog k b + 1)"
proof -
  have "k powi ilog k b \<le> b \<and> b < k powi (ilog k b + 1)"
  proof (cases "1 \<le> b")
    case True
    have "k powi (int (count_up k b) + 1) = k powi int (Suc (count_up k b))"
      by (simp add: add.commute)
    then have "k powi (int (count_up k b) + 1) = k ^ Suc (count_up k b)"
      by (simp only: power_int_of_nat)
    with count_up_bracket[OF assms(1) True] True show ?thesis
      by (simp add: ilog_def)
  next
    case False
    then have "b < 1" by simp
    from count_down_bracket[OF assms this] False show ?thesis
      by (simp add: ilog_def)
  qed
  then show "k powi ilog k b \<le> b" and "b < k powi (ilog k b + 1)" by simp_all
qed

lemma ilog_unique:
  assumes "1 < k" "0 < b" "k powi i \<le> b" "b < k powi (i + 1)"
  shows "ilog k b = i"
proof (rule ccontr)
  assume ne: "ilog k b \<noteq> i"
  note br = ilog_bracket[OF assms(1,2)]
  show False
  proof (cases "ilog k b < i")
    case True
    then have "k powi (ilog k b + 1) \<le> k powi i"
      using assms(1) by (intro power_int_increasing) simp_all
    with br(2) assms(3) show False by simp
  next
    case False
    with ne have "i + 1 \<le> ilog k b" by simp
    then have "k powi (i + 1) \<le> k powi ilog k b"
      using assms(1) by (intro power_int_increasing) simp_all
    with br(1) assms(4) show False by simp
  qed
qed

lemma round_half_even_of_int [simp]: "round_half_even (of_int n) = n"
  by (simp add: round_half_even_def)

lemma round_half_even_error: "\<bar>of_int (round_half_even x) - x\<bar> \<le> 1 / 2"
  unfolding round_half_even_def Let_def by (auto simp: abs_le_iff)

lemma round_half_even_ge:
  assumes "of_int n \<le> x"
  shows "n \<le> round_half_even x"
proof -
  from assms have "n \<le> \<lfloor>x\<rfloor>" by (simp add: le_floor_iff)
  then show ?thesis
    unfolding round_half_even_def Let_def by auto
qed

lemma round_half_even_le:
  assumes "x \<le> of_int n"
  shows "round_half_even x \<le> n"
proof (cases "x = of_int n")
  case True
  then show ?thesis by simp
next
  case False
  with assms have "x < of_int n" by simp
  then have "\<lfloor>x\<rfloor> < n" by (simp add: floor_less_iff)
  then show ?thesis
    unfolding round_half_even_def Let_def by auto
qed


lemma binade_ge: "- 1022 \<le> binade x"
  by (simp add: binade_def)

lemma ilog_le:
  assumes "0 < b" "b < 2 powi (E + 1)"
  shows "ilog 2 b \<le> E"
proof (rule ccontr)
  assume "\<not> ilog 2 b \<le> E"
  then have "E + 1 \<le> ilog 2 b" by simp
  then have "(2::real) powi (E + 1) \<le> 2 powi ilog 2 b"
    by (intro power_int_increasing) simp_all
  with ilog_bracket(1)[of 2 b] assms show False by simp
qed

lemma ilog_ge:
  assumes "0 < b" "2 powi E \<le> b"
  shows "E \<le> ilog 2 b"
proof (rule ccontr)
  assume "\<not> E \<le> ilog 2 b"
  then have "ilog 2 b + 1 \<le> E" by simp
  then have "(2::real) powi (ilog 2 b + 1) \<le> 2 powi E"
    by (intro power_int_increasing) simp_all
  with ilog_bracket(2)[of 2 b] assms show False by simp
qed

lemma powi_2_pos [simp]: "0 < (2::real) powi i"
  by (simp add: zero_less_power_int)

lemma powi_2_diff: "(2::real) powi (a - b) = 2 powi a / 2 powi b"
  by (simp add: power_int_diff)

text \<open>A value \<open>m * 2\<^sup>e\<close> with a 53-bit \<open>m\<close> inside the range of the doubles is a double.\<close>

lemma round_double_representable:
  fixes m :: int
  assumes "0 < m" "m < 2 ^ 53" "- 1074 \<le> e" "of_int m * 2 powi e < (2::real) ^ 1024"
  shows "round_double (of_int m * 2 powi e) = Fin (of_int m * 2 powi e)"
proof -
  define x :: real where "x = of_int m * 2 powi e"
  have xpos: "0 < x" using assms(1) by (simp add: x_def)
  define p where "p = ilog 2 (of_int m)"
  have mpos: "(0::real) < of_int m" using assms(1) by simp
  have pb: "2 powi p \<le> (of_int m :: real)" "(of_int m :: real) < 2 powi (p + 1)"
    using ilog_bracket[of 2 "of_int m"] mpos by (simp_all add: p_def)
  have "(of_int m :: real) < 2 powi 53"
    using assms(2) by (metis of_int_less_iff of_int_numeral of_int_power power_int_numeral)
  then have "(of_int m :: real) < 2 powi (52 + 1)" by simp
  from ilog_le[OF mpos this] have p52: "p \<le> 52" by (simp add: p_def)
  have il: "ilog 2 x = p + e"
  proof (rule ilog_unique)
    show "(1::real) < 2" by simp
    show "0 < x" by (rule xpos)
    show "2 powi (p + e) \<le> x"
      using pb(1) by (simp add: x_def power_int_add)
    show "x < 2 powi (p + e + 1)"
      using pb(2) by (simp add: x_def power_int_add mult.commute mult.left_commute)
  qed
  define B where "B = binade x"
  have B: "B = max (p + e) (- 1022)"
    using xpos il by (simp add: B_def binade_def)
  define s where "s = 52 - B + e"
  have s0: "0 \<le> s"
    using B p52 assms(3) by (auto simp: s_def max_def split: if_splits)
  have "x / 2 powi (B - 52) = of_int m * 2 powi s"
    by (simp add: x_def s_def powi_2_diff power_int_add field_simps)
  also have "\<dots> = of_int (m * 2 ^ nat s)"
    using s0 by (simp add: power_int_nonneg_exp)
  finally have q: "x / 2 powi (B - 52) = of_int (m * 2 ^ nat s)" .
  have r: "of_int (round_half_even (\<bar>x\<bar> / 2 powi (B - 52))) * 2 powi (B - 52) = x"
  proof -
    have "of_int (round_half_even (\<bar>x\<bar> / 2 powi (B - 52))) = x / 2 powi (B - 52)"
      using xpos q by (simp del: of_int_mult of_int_power)
    then show ?thesis by simp
  qed
  have "x < 2 ^ 1024" using assms(4) by (simp add: x_def)
  with xpos r show ?thesis
    unfolding x_def[symmetric] by (simp add: round_double_def Let_def B_def[symmetric])
qed

lemma round_double_0 [simp]: "round_double 0 = Fin 0"
  by (simp add: round_double_def)

lemma round_double_of_nat:
  assumes "n < 2 ^ 53"
  shows "round_double (of_nat n) = Fin (of_nat n)"
proof (cases "n = 0")
  case True
  then show ?thesis by simp
next
  case False
  have "(of_int (int n) :: real) * 2 powi 0 < 2 ^ 1024"
  proof -
    have "real n < 2 ^ 53" using assms
      by (metis of_nat_less_iff of_nat_numeral of_nat_power)
    also have "\<dots> < (2::real) ^ 1024" by simp
    finally show ?thesis by simp
  qed
  with round_double_representable[of "int n" 0] False assms show ?thesis
    by simp
qed

lemma round_double_numeral [simp]:
  "numeral n < (2::nat) ^ 53 \<Longrightarrow> round_double (numeral n) = Fin (numeral n)"
  using round_double_of_nat[of "numeral n"] by simp

lemma round_double_1 [simp]: "round_double 1 = Fin 1"
  using round_double_of_nat[of 1] by simp

lemma js_nat_simps [simp]:
  "js_nat 0 = Fin 0"
  "js_nat 1 = Fin 1"
  "numeral n < (2::nat) ^ 53 \<Longrightarrow> js_nat (numeral n) = Fin (numeral n)"
  by (simp_all add: js_nat_def)

lemma js_int_simps [simp]:
  "js_int 0 = Fin 0"
  "js_int 1 = Fin 1"
  "numeral n < (2::nat) ^ 53 \<Longrightarrow> js_int (numeral n) = Fin (numeral n)"
  by (simp_all add: js_int_def)

text \<open>The error of rounding below \<open>2\<^sup>E\<^sup>+\<^sup>1\<close>, and the sign of the result.\<close>

lemma round_double_error:
  assumes "x \<noteq> 0" "\<bar>x\<bar> < 2 powi (E + 1)" "- 1022 \<le> E" "E \<le> 1022"
  shows "\<exists>r. round_double x = Fin r \<and> \<bar>r - x\<bar> \<le> 2 powi (E - 53) \<and>
           (0 < x \<longrightarrow> 0 \<le> r) \<and> (x < 0 \<longrightarrow> r \<le> 0)"
proof -
  define B where "B = binade x"
  define u :: real where "u = 2 powi (B - 52)"
  define m where "m = round_half_even (\<bar>x\<bar> / u)"
  have upos: "0 < u" by (simp add: u_def)
  have ax: "0 < \<bar>x\<bar>" using assms(1) by simp
  have "ilog 2 \<bar>x\<bar> \<le> E" using ilog_le[OF ax assms(2)] .
  then have BE: "B \<le> E" using assms(3) by (simp add: B_def binade_def)
  then have uE: "u \<le> 2 powi (E - 52)"
    unfolding u_def by (intro power_int_increasing) simp_all
  have m0: "0 \<le> m"
    unfolding m_def using upos by (intro round_half_even_ge) simp
  have "\<bar>of_int m - \<bar>x\<bar> / u\<bar> \<le> 1 / 2"
    unfolding m_def by (rule round_half_even_error)
  then have "\<bar>of_int m - \<bar>x\<bar> / u\<bar> * u \<le> 1 / 2 * u"
    using upos by (intro mult_right_mono) simp_all
  moreover have "\<bar>of_int m - \<bar>x\<bar> / u\<bar> * u = \<bar>(of_int m - \<bar>x\<bar> / u) * u\<bar>"
    using upos by (simp add: abs_mult)
  moreover have "(of_int m - \<bar>x\<bar> / u) * u = of_int m * u - \<bar>x\<bar>"
    using upos by (simp add: field_simps)
  ultimately have e1: "\<bar>of_int m * u - \<bar>x\<bar>\<bar> \<le> u / 2"
    by simp
  have "u / 2 \<le> 2 powi (E - 52) / 2" using uE by simp
  also have "\<dots> = 2 powi (E - 53)"
    using power_int_add[of "2::real" "E - 52" "-1"] by simp
  finally have e2: "\<bar>of_int m * u - \<bar>x\<bar>\<bar> \<le> 2 powi (E - 53)"
    using e1 by simp
  have "2 powi (E - 53) \<le> (2::real) powi (E + 1)"
    by (intro power_int_increasing) simp_all
  with e2 assms(2) have "of_int m * u < 2 * 2 powi (E + 1)"
    by (simp add: abs_le_iff)
  also have "\<dots> = 2 powi (E + 2)"
    using power_int_add[of "2::real" "E + 1" 1] by (simp add: add.commute)
  also have "\<dots> \<le> 2 powi 1024"
    using assms(4) by (intro power_int_increasing) simp_all
  finally have small: "of_int m * u < 2 ^ 1024" by simp
  have rd: "round_double x = Fin (sgn x * (of_int m * u))"
    using assms(1) small
    by (simp add: round_double_def Let_def B_def[symmetric] u_def[symmetric] m_def[symmetric])
  have mu0: "0 \<le> of_int m * u" using m0 upos by simp
  define r where "r = of_int m * u"
  have "\<bar>sgn x * r - x\<bar> = \<bar>r - \<bar>x\<bar>\<bar>"
  proof (cases "0 < x")
    case True
    then show ?thesis by simp
  next
    case False
    with assms(1) have "x < 0" by simp
    then have "sgn x * r - x = - (r - \<bar>x\<bar>)" by simp
    then show ?thesis by (simp only: abs_minus)
  qed
  moreover have "0 < x \<longrightarrow> 0 \<le> sgn x * r" "x < 0 \<longrightarrow> sgn x * r \<le> 0"
    using mu0 by (simp_all add: r_def)
  ultimately show ?thesis
    using e2 rd unfolding r_def[symmetric] by (intro exI[of _ "sgn x * r"]) simp
qed

text \<open>Rounding does not cross a power of two towards zero.\<close>

lemma round_double_away:
  assumes "2 powi E \<le> \<bar>x\<bar>" "- 1022 \<le> E" "\<bar>x\<bar> < 2 powi 1023"
  shows "\<exists>r. round_double x = Fin r \<and> 2 powi E \<le> \<bar>r\<bar> \<and> sgn r = sgn x"
proof -
  have ax: "0 < \<bar>x\<bar>" using assms(1) powi_2_pos[of E] by linarith
  then have x0: "x \<noteq> 0" by simp
  define I where "I = ilog 2 \<bar>x\<bar>"
  have IE: "E \<le> I" unfolding I_def using ilog_ge[OF ax assms(1)] .
  have I1022: "I \<le> 1022"
    unfolding I_def using ilog_le[OF ax, of 1022] assms(3) by simp
  have B: "binade x = I" using IE assms(2) by (simp add: binade_def I_def)
  define u :: real where "u = 2 powi (I - 52)"
  define m where "m = round_half_even (\<bar>x\<bar> / u)"
  have upos: "0 < u" by (simp add: u_def)
  have "2 powi I \<le> \<bar>x\<bar>" unfolding I_def using ilog_bracket(1)[of 2 "\<bar>x\<bar>"] ax by simp
  then have "2 powi I / u \<le> \<bar>x\<bar> / u" using upos by (simp add: divide_right_mono)
  moreover have "2 powi I / u = (2::real) ^ 52"
    by (simp add: u_def powi_2_diff)
  ultimately have "of_int (2 ^ 52) \<le> \<bar>x\<bar> / u" by simp
  then have m52: "2 ^ 52 \<le> m" unfolding m_def by (rule round_half_even_ge)
  then have "(2::real) ^ 52 \<le> of_int m"
    by (metis of_int_le_iff of_int_numeral of_int_power)
  then have "2 ^ 52 * u \<le> of_int m * u" using upos by simp
  moreover have "2 ^ 52 * u = (2::real) powi I"
    by (simp add: u_def powi_2_diff)
  ultimately have big: "2 powi I \<le> of_int m * u" by simp
  have "(2::real) powi E \<le> 2 powi I" using IE by (intro power_int_increasing) simp_all
  with big have bigE: "2 powi E \<le> of_int m * u" by simp
  have "\<bar>x\<bar> < 2 powi (I + 1)" unfolding I_def using ilog_bracket(2)[of 2 "\<bar>x\<bar>"] ax by simp
  then have "\<bar>x\<bar> / u < 2 powi (I + 1) / u" using upos by (simp add: divide_strict_right_mono)
  moreover have "2 powi (I + 1) / u = (2::real) ^ 53"
    using power_int_add[of "2::real" I 1] by (simp add: u_def powi_2_diff)
  ultimately have "\<bar>x\<bar> / u \<le> of_int (2 ^ 53)" by simp
  then have "m \<le> 2 ^ 53" unfolding m_def by (rule round_half_even_le)
  then have "(of_int m :: real) \<le> 2 ^ 53"
    by (metis of_int_le_iff of_int_numeral of_int_power)
  then have "of_int m * u \<le> 2 ^ 53 * u" using upos by simp
  moreover have "2 ^ 53 * u = (2::real) powi (I + 1)"
    using power_int_add[of "2::real" I 1] by (simp add: u_def powi_2_diff)
  moreover have "(2::real) powi (I + 1) \<le> 2 powi 1023"
    using I1022 by (intro power_int_increasing) simp_all
  ultimately have small: "of_int m * u < 2 ^ 1024"
    by (simp add: order.strict_trans1[where b = "(2::real) ^ 1023"])
  have rd: "round_double x = Fin (sgn x * (of_int m * u))"
    using x0 small
    by (simp add: round_double_def Let_def B u_def[symmetric] m_def[symmetric])
  define r where "r = of_int m * u"
  have rpos: "0 < r" unfolding r_def using bigE powi_2_pos[of E] by linarith
  have "\<bar>sgn x * r\<bar> = r" "sgn (sgn x * r) = sgn x"
    using rpos x0 by (simp_all add: sgn_if)
  with rd bigE show ?thesis
    unfolding r_def[symmetric] by (intro exI[of _ "sgn x * r"]) simp
qed

section \<open>The example states\<close>

lemmas service_defs =
  constructor_def handleFiles_def generateId_def emit_def dispatch_def state_after_def
  subscribe_uploadFile_def fileList_item_def push_upload_def unsubscribe_def teardown_def
  observer_next_def observer_complete_def fileList_filter_def filter_index_def splice1_def
  xhr_upload_event_def on_progress_def on_load_def Let_def

lemma ex_queued_eq:
  "ex_queued =
     \<lparr>fileList = FL_FileList [ex_a, ex_b], files = [Entry 0, Entry 1], uploads = [],
      serviceEvents =
        [\<lparr>out_type = Ev_addedToQueue, out_file = Some (queued_entry ''ida'' 0 ex_a)\<rparr>,
         \<lparr>out_type = Ev_addedToQueue, out_file = Some (queued_entry ''idb'' 1 ex_b)\<rparr>,
         \<lparr>out_type = Ev_allAddedToQueue, out_file = None\<rparr>],
      heap = (\<lambda>r. ex_blank)(Entry 0 := queued_entry ''ida'' 0 ex_a, Entry 1 := queued_entry ''idb'' 1 ex_b),
      allocated = 2, subscriptions = [], random = ex_ids, generated = 2, math_log = ex_log\<rparr>"
  by (simp add: ex_queued_def service_defs queued_entry_def ex_ids_def numeral_2_eq_2)

lemma ex_started_b_eq:
  "ex_started_b =
     ex_queued
       \<lparr>uploads := [\<lparr>up_file = Entry 1, up_sub = 0\<rparr>],
        serviceEvents := serviceEvents ex_queued @
          [\<lparr>out_type = Ev_start, out_file = Some (queued_entry ''idb'' 1 ex_b)\<rparr>],
        subscriptions :=
          [\<lparr>run_file = Entry 1, time = Fin 0, load = Fin 0, xhr_method = ''POST'',
            xhr_url = Some ''/upload'', sent = Some (Some ex_b), closed = False, aborted = False\<rparr>]\<rparr>"
  by (simp add: ex_started_b_def ex_queued_eq service_defs ex_env_def ex_input_def queued_entry_def)

lemma ex_started_all_eq:
  "ex_started_all =
     ex_queued
       \<lparr>uploads := [\<lparr>up_file = Entry 0, up_sub = 0\<rparr>, \<lparr>up_file = Entry 1, up_sub = 1\<rparr>],
        serviceEvents := serviceEvents ex_queued @
          [\<lparr>out_type = Ev_start, out_file = Some (queued_entry ''ida'' 0 ex_a)\<rparr>,
           \<lparr>out_type = Ev_start, out_file = Some (queued_entry ''idb'' 1 ex_b)\<rparr>],
        subscriptions :=
          [\<lparr>run_file = Entry 0, time = Fin 0, load = Fin 0, xhr_method = ''POST'',
            xhr_url = Some ''/upload'', sent = Some (Some ex_a), closed = False, aborted = False\<rparr>,
           \<lparr>run_file = Entry 1, time = Fin 0, load = Fin 0, xhr_method = ''POST'',
            xhr_url = Some ''/upload'', sent = Some (Some ex_b), closed = False, aborted = False\<rparr>]\<rparr>"
  by (simp add: ex_started_all_def ex_queued_eq service_defs ex_env_def ex_input_def queued_entry_def)

section \<open>Properties of the dispatcher\<close>

lemma filter_index_shift:
  "map fst (filter (\<lambda>(x, i). p i) (zip xs [n..<n + length xs])) =
   map fst (filter (\<lambda>(x, i). p (i + n)) (zip xs [0..<length xs]))"
proof (induction xs arbitrary: n p)
  case Nil
  then show ?case by simp
next
  case (Cons x xs)
  have a: "[n..<n + length (x # xs)] = n # [Suc n..<Suc n + length xs]"
    by (simp add: upt_conv_Cons del: upt_Suc)
  have b: "[0..<length (x # xs)] = 0 # [Suc 0..<Suc 0 + length xs]"
    by (simp add: upt_conv_Cons del: upt_Suc)
  show ?case
    unfolding a b using Cons.IH[of p "Suc n"] Cons.IH[of "\<lambda>i. p (i + n)" "Suc 0"]
    by (simp del: upt_Suc)
qed

lemma filter_index_Cons:
  "filter_index p (x # xs) = (if p 0 then [x] else []) @ filter_index (\<lambda>i. p (Suc i)) xs"
proof -
  have b: "[0..<length (x # xs)] = 0 # [Suc 0..<Suc 0 + length xs]"
    by (simp add: upt_conv_Cons del: upt_Suc)
  show ?thesis
    unfolding filter_index_def b using filter_index_shift[of p xs "Suc 0"]
    by (simp del: upt_Suc)
qed

lemma filter_index_neq: "filter_index (\<lambda>i. i \<noteq> index) xs = splice1 index xs"
proof (induction xs arbitrary: index)
  case Nil
  then show ?case by (simp add: filter_index_def splice1_def)
next
  case (Cons x xs)
  show ?case
  proof (cases index)
    case 0
    have "filter_index (\<lambda>i. Suc i \<noteq> 0) xs = xs"
      by (simp add: filter_index_def)
    with 0 show ?thesis by (simp add: filter_index_Cons splice1_def)
  next
    case (Suc j)
    with Cons.IH[of j] show ?thesis by (simp add: filter_index_Cons splice1_def)
  qed
qed

text \<open>
  What a cancel that finds its job does to the three lists: the position of the job in
  the job table is the position removed from each of them.
\<close>

lemma dispatch_cancel_positions:
  assumes "in_type event = In_cancel" "in_id event = Some i" "i \<noteq> []"
    and "findIndex (\<lambda>upload. file_id (heap s (up_file upload)) = i) (uploads s) = Some index"
    and "fileList s = FL_FileList fs \<or> fileList s = FL_Array fs"
  shows "\<exists>s'. dispatch e event s = Inr s' \<and>
           uploads s' = splice1 index (uploads s) \<and>
           files s' = splice1 index (files s) \<and>
           fileList s' = FL_Array (splice1 index fs)"
  using assms
  by (auto simp: dispatch_def Let_def fileList_filter_def filter_index_neq emit_def
      unsubscribe_def)

lemma findIndex_None_iff: "findIndex p xs = None \<longleftrightarrow> (\<forall>x\<in>set xs. \<not> p x)"
  by (induction xs) auto

lemma findIndex_Some:
  "findIndex p xs = Some i \<Longrightarrow> i < length xs \<and> p (xs ! i) \<and> (\<forall>j<i. \<not> p (xs ! j))"
proof (induction xs arbitrary: i)
  case Nil
  then show ?case by simp
next
  case (Cons x xs)
  show ?case
  proof (cases "p x")
    case True
    with Cons.prems show ?thesis by simp
  next
    case False
    with Cons.prems obtain k where k: "findIndex p xs = Some k" "i = Suc k"
      by auto
    from Cons.IH[OF k(1)] False k(2) show ?thesis
      by (auto simp: nth_Cons split: nat.splits)
  qed
qed

lemma findIndex_Some_ex: "\<exists>x\<in>set xs. p x \<Longrightarrow> \<exists>i. findIndex p xs = Some i"
  using findIndex_None_iff[of p xs] by (cases "findIndex p xs") auto

text \<open>
  Claim C4. A cancel command whose id is absent (not given, or the empty string) or is
  the id of no tracked job leaves the service exactly as it was: no event is emitted and
  the entry list, the raw file list and the job table are unchanged.
\<close>

theorem C4_cancel_unknown:
  assumes "in_type event = In_cancel"
    and "in_id event = None \<or> in_id event = Some [] \<or>
         (\<exists>i. in_id event = Some i \<and> (\<forall>u\<in>set (uploads s). file_id (heap s (up_file u)) \<noteq> i))"
  shows "dispatch e event s = Inr s"
proof -
  from assms(2) consider "in_id event = None" | "in_id event = Some []"
    | i where "in_id event = Some i" "i \<noteq> []" "\<forall>u\<in>set (uploads s). file_id (heap s (up_file u)) \<noteq> i"
    by (cases "in_id event") auto
  then show ?thesis
  proof cases
    case 1
    with assms(1) show ?thesis by (simp add: dispatch_def)
  next
    case 2
    with assms(1) show ?thesis by (simp add: dispatch_def)
  next
    case 3
    then have "findIndex (\<lambda>upload. file_id (heap s (up_file upload)) = i) (uploads s) = None"
      by (simp add: findIndex_None_iff)
    with 3 assms(1) show ?thesis by (simp add: dispatch_def)
  qed
qed

theorem C4_cancel_unknown_witness:
  "in_type ((ex_input In_cancel)\<lparr>in_id := Some ''nobody''\<rparr>) = In_cancel \<and>
   map (\<lambda>u. file_id (heap ex_started_b (up_file u))) (uploads ex_started_b) = [''idb''] \<and>
   dispatch ex_env ((ex_input In_cancel)\<lparr>in_id := Some ''nobody''\<rparr>) ex_started_b = Inr ex_started_b \<and>
   in_id (ex_input In_cancel) = None \<and>
   dispatch ex_env (ex_input In_cancel) ex_started_b = Inr ex_started_b"
proof -
  have h: "in_type ((ex_input In_cancel)\<lparr>in_id := Some ''nobody''\<rparr>) = In_cancel"
    "in_type (ex_input In_cancel) = In_cancel" "in_id (ex_input In_cancel) = None"
    by (simp_all add: ex_input_def)
  have g: "map (\<lambda>u. file_id (heap ex_started_b (up_file u))) (uploads ex_started_b) = [''idb'']"
    by (simp add: ex_started_b_eq ex_queued_eq queued_entry_def)
  have "\<forall>u\<in>set (uploads ex_started_b). file_id (heap ex_started_b (up_file u)) \<noteq> ''nobody''"
    by (simp add: ex_started_b_eq ex_queued_eq queued_entry_def)
  then have g': "in_id ((ex_input In_cancel)\<lparr>in_id := Some ''nobody''\<rparr>) = None \<or>
     in_id ((ex_input In_cancel)\<lparr>in_id := Some ''nobody''\<rparr>) = Some [] \<or>
     (\<exists>i. in_id ((ex_input In_cancel)\<lparr>in_id := Some ''nobody''\<rparr>) = Some i \<and>
        (\<forall>u\<in>set (uploads ex_started_b). file_id (heap ex_started_b (up_file u)) \<noteq> i))"
    by simp
  have g'': "in_id (ex_input In_cancel) = None \<or> in_id (ex_input In_cancel) = Some [] \<or>
     (\<exists>i. in_id (ex_input In_cancel) = Some i \<and>
        (\<forall>u\<in>set (uploads ex_started_b). file_id (heap ex_started_b (up_file u)) \<noteq> i))"
    using h(3) by simp
  from C4_cancel_unknown[OF h(1) g', of ex_env] C4_cancel_unknown[OF h(2) g'', of ex_env] h g
  show ?thesis by simp
qed

subsection \<open>handleFiles\<close>

lemma emit_fields [simp]:
  "serviceEvents (emit ev s) = serviceEvents s @ [ev]"
  "heap (emit ev s) = heap s" "files (emit ev s) = files s" "uploads (emit ev s) = uploads s"
  "fileList (emit ev s) = fileList s" "allocated (emit ev s) = allocated s"
  "subscriptions (emit ev s) = subscriptions s" "random (emit ev s) = random s"
  "generated (emit ev s) = generated s"
  by (simp_all add: emit_def)

lemma handleFiles_map_Cons:
  "handleFiles_map (f # rest) i s =
     (let (refs, s') = handleFiles_map rest (Suc i)
        (emit \<lparr>out_type = Ev_addedToQueue, out_file = Some (queued_entry (random s (generated s)) i f)\<rparr>
          (s\<lparr>generated := Suc (generated s),
             heap := (heap s)(Entry (allocated s) := queued_entry (random s (generated s)) i f),
             allocated := Suc (allocated s)\<rparr>))
      in (Entry (allocated s) # refs, s'))"
  by (simp add: generateId_def Let_def queued_entry_def split: prod.splits)

lemma handleFiles_map_frame:
  assumes "handleFiles_map fs i s = (refs, s')"
  shows "fileList s' = fileList s \<and> files s' = files s \<and> uploads s' = uploads s \<and>
    subscriptions s' = subscriptions s \<and> random s' = random s \<and>
    allocated s' = allocated s + length fs \<and> generated s' = generated s + length fs \<and>
    refs = map Entry [allocated s..<allocated s + length fs] \<and>
    (\<forall>r. (\<forall>n. r = Entry n \<longrightarrow> n < allocated s) \<longrightarrow> heap s' r = heap s r)"
  using assms
proof (induction fs arbitrary: i s refs s')
  case Nil
  then show ?case by simp
next
  case (Cons f rest)
  let ?s3 = "emit \<lparr>out_type = Ev_addedToQueue, out_file = Some (queued_entry (random s (generated s)) i f)\<rparr>
       (s\<lparr>generated := Suc (generated s),
          heap := (heap s)(Entry (allocated s) := queued_entry (random s (generated s)) i f),
          allocated := Suc (allocated s)\<rparr>)"
  obtain refs' s4 where r: "handleFiles_map rest (Suc i) ?s3 = (refs', s4)"
    by (cases "handleFiles_map rest (Suc i) ?s3") auto
  with Cons.prems have eq: "refs = Entry (allocated s) # refs'" "s' = s4"
    by (simp_all add: handleFiles_map_Cons del: handleFiles_map.simps)
  from Cons.IH[OF r] have ih:
    "fileList s4 = fileList s" "files s4 = files s" "uploads s4 = uploads s"
    "subscriptions s4 = subscriptions s" "random s4 = random s"
    "allocated s4 = Suc (allocated s) + length rest" "generated s4 = Suc (generated s) + length rest"
    "refs' = map Entry [Suc (allocated s)..<Suc (allocated s) + length rest]"
    "\<And>r. (\<forall>n. r = Entry n \<longrightarrow> n < Suc (allocated s)) \<Longrightarrow> heap s4 r = heap ?s3 r"
    by (simp_all del: upt_Suc)
  have "\<forall>r. (\<forall>n. r = Entry n \<longrightarrow> n < allocated s) \<longrightarrow> heap s' r = heap s r"
  proof (intro allI impI)
    fix r assume a: "\<forall>n. r = Entry n \<longrightarrow> n < allocated s"
    then have "heap s4 r = heap ?s3 r" by (intro ih(9)) auto
    moreover from a have "r \<noteq> Entry (allocated s)" by auto
    ultimately show "heap s' r = heap s r" using eq by simp
  qed
  moreover have "refs = map Entry [allocated s..<allocated s + length (f # rest)]"
  proof -
    have "[allocated s..<allocated s + length (f # rest)] =
        allocated s # [Suc (allocated s)..<Suc (allocated s) + length rest]"
      using upt_conv_Cons[of "allocated s" "allocated s + length (f # rest)"]
      by (simp del: upt_Suc)
    then show ?thesis
      using eq(1) ih(8) by (simp del: upt_Suc)
  qed
  ultimately show ?case using eq ih(1-7) by simp
qed

lemma handleFiles_map_entries:
  assumes "handleFiles_map fs i s = (refs, s')" "k < length fs"
  shows "heap s' (Entry (allocated s + k)) = queued_entry (random s (generated s + k)) (i + k) (fs ! k)"
  using assms
proof (induction fs arbitrary: i s refs s' k)
  case Nil
  then show ?case by simp
next
  case (Cons f rest)
  let ?s3 = "emit \<lparr>out_type = Ev_addedToQueue, out_file = Some (queued_entry (random s (generated s)) i f)\<rparr>
       (s\<lparr>generated := Suc (generated s),
          heap := (heap s)(Entry (allocated s) := queued_entry (random s (generated s)) i f),
          allocated := Suc (allocated s)\<rparr>)"
  obtain refs' s4 where r: "handleFiles_map rest (Suc i) ?s3 = (refs', s4)"
    by (cases "handleFiles_map rest (Suc i) ?s3") auto
  with Cons.prems have eq: "refs = Entry (allocated s) # refs'" "s' = s4"
    by (simp_all add: handleFiles_map_Cons del: handleFiles_map.simps)
  show ?case
  proof (cases k)
    case 0
    have "heap s4 (Entry (allocated s)) = heap ?s3 (Entry (allocated s))"
      using handleFiles_map_frame[OF r] by simp
    with 0 eq show ?thesis by simp
  next
    case (Suc j)
    with Cons.prems have "j < length rest" by simp
    from Cons.IH[OF r this] Suc eq show ?thesis by simp
  qed
qed

lemma handleFiles_map_events:
  assumes "handleFiles_map fs i s = (refs, s')"
  shows "serviceEvents s' = serviceEvents s @
           map (\<lambda>r. \<lparr>out_type = Ev_addedToQueue, out_file = Some (heap s' r)\<rparr>) refs"
  using assms
proof (induction fs arbitrary: i s refs s')
  case Nil
  then show ?case by simp
next
  case (Cons f rest)
  let ?s3 = "emit \<lparr>out_type = Ev_addedToQueue, out_file = Some (queued_entry (random s (generated s)) i f)\<rparr>
       (s\<lparr>generated := Suc (generated s),
          heap := (heap s)(Entry (allocated s) := queued_entry (random s (generated s)) i f),
          allocated := Suc (allocated s)\<rparr>)"
  obtain refs' s4 where r: "handleFiles_map rest (Suc i) ?s3 = (refs', s4)"
    by (cases "handleFiles_map rest (Suc i) ?s3") auto
  with Cons.prems have eq: "refs = Entry (allocated s) # refs'" "s' = s4"
    by (simp_all add: handleFiles_map_Cons del: handleFiles_map.simps)
  have "heap s4 (Entry (allocated s)) = heap ?s3 (Entry (allocated s))"
    using handleFiles_map_frame[OF r] by simp
  then have "heap s4 (Entry (allocated s)) = queued_entry (random s (generated s)) i f"
    by simp
  with Cons.IH[OF r] eq show ?case by simp
qed

text \<open>
  Claim C5. For a batch of \<open>N\<close> files, whatever the state before, \<^verbatim>\<open>handleFiles\<close> emits
  exactly \<open>N\<close> \<^verbatim>\<open>addedToQueue\<close> events, one per new entry in batch order, then one
  \<^verbatim>\<open>allAddedToQueue\<close>. Afterwards the entry list holds exactly the \<open>N\<close> new entries (fresh
  objects; nothing of the previous list is kept), the \<open>k\<close>-th with index \<open>k\<close>, the data of
  the \<open>k\<close>-th file, status Queue, percentage 0 and null speed.
\<close>

theorem C5_handleFiles:
  fixes fs :: "File list" and s :: NgUploaderService
  defines "s' \<equiv> handleFiles fs s"
  defines "entries \<equiv> map (heap s') (files s')"
  shows "serviceEvents s' =
           serviceEvents s @
           map (\<lambda>f. \<lparr>out_type = Ev_addedToQueue, out_file = Some f\<rparr>) entries @
           [\<lparr>out_type = Ev_allAddedToQueue, out_file = None\<rparr>] \<and>
         length entries = length fs \<and>
         files s' = map Entry [allocated s..<allocated s + length fs] \<and>
         fileList s' = FL_FileList fs \<and>
         uploads s' = uploads s \<and>
         (\<forall>k<length fs.
            entries ! k =
              \<lparr>file_id = random s (generated s + k), fileIndex = k,
               lastModifiedDate = raw_lastModifiedDate (fs ! k),
               file_name = raw_name (fs ! k), file_size = raw_size (fs ! k),
               file_type = raw_type (fs ! k),
               progress =
                 \<lparr>status = Queue,
                  data = Some \<lparr>percentage = Fin 0, speed = None, speedHuman = None\<rparr>\<rparr>\<rparr>)"
proof -
  obtain refs s2 where r: "handleFiles_map fs 0 (s\<lparr>fileList := FL_FileList fs\<rparr>) = (refs, s2)"
    by (cases "handleFiles_map fs 0 (s\<lparr>fileList := FL_FileList fs\<rparr>)") auto
  then have s': "s' = emit \<lparr>out_type = Ev_allAddedToQueue, out_file = None\<rparr> (s2\<lparr>files := refs\<rparr>)"
    by (simp add: s'_def handleFiles_def)
  note fr = handleFiles_map_frame[OF r]
  have refs: "refs = map Entry [allocated s..<allocated s + length fs]"
    using fr by simp
  have ev: "serviceEvents s2 = serviceEvents s @
      map (\<lambda>r. \<lparr>out_type = Ev_addedToQueue, out_file = Some (heap s2 r)\<rparr>) refs"
    using handleFiles_map_events[OF r] by simp
  have ent: "entries = map (heap s2) refs"
    by (simp add: entries_def s')
  have "\<forall>k<length fs. entries ! k = queued_entry (random s (generated s + k)) k (fs ! k)"
  proof (intro allI impI)
    fix k assume k: "k < length fs"
    from handleFiles_map_entries[OF r k] have "heap s2 (Entry (allocated s + k)) =
        queued_entry (random s (generated s + k)) k (fs ! k)" by simp
    with k show "entries ! k = queued_entry (random s (generated s + k)) k (fs ! k)"
      by (simp add: ent refs)
  qed
  moreover have "serviceEvents s' = serviceEvents s @
      map (\<lambda>f. \<lparr>out_type = Ev_addedToQueue, out_file = Some f\<rparr>) entries @
      [\<lparr>out_type = Ev_allAddedToQueue, out_file = None\<rparr>]"
    by (simp add: s' ev ent comp_def)
  moreover have "length entries = length fs" by (simp add: ent refs)
  moreover have "files s' = map Entry [allocated s..<allocated s + length fs]"
    by (simp add: s' refs)
  moreover have "fileList s' = FL_FileList fs" "uploads s' = uploads s"
    using fr by (simp_all add: s')
  ultimately show ?thesis by (simp add: queued_entry_def)
qed

theorem C5_handleFiles_witness:
  "(1::nat) < length [ex_a, ex_b] \<and>
   map (heap (handleFiles [ex_a, ex_b] ex_started_b)) (files (handleFiles [ex_a, ex_b] ex_started_b)) ! 1 =
     \<lparr>file_id = ''idc'', fileIndex = 1, lastModifiedDate = 0, file_name = ''b.txt'',
      file_size = 200, file_type = ''text/plain'',
      progress = \<lparr>status = Queue,
                  data = Some \<lparr>percentage = Fin 0, speed = None, speedHuman = None\<rparr>\<rparr>\<rparr> \<and>
   files (handleFiles [ex_a, ex_b] ex_started_b) = [Entry 2, Entry 3] \<and>
   length (serviceEvents (handleFiles [ex_a, ex_b] ex_started_b)) =
     length (serviceEvents ex_started_b) + 3"
proof -
  let ?s' = "handleFiles [ex_a, ex_b] ex_started_b"
  have a: "allocated ex_started_b = 2" "generated ex_started_b = 2" "random ex_started_b = ex_ids"
    by (simp_all add: ex_started_b_eq ex_queued_eq)
  note c = C5_handleFiles[of "[ex_a, ex_b]" ex_started_b]
  have one: "(1::nat) < length [ex_a, ex_b]" by simp
  from c have "\<forall>k<length [ex_a, ex_b].
      map (heap ?s') (files ?s') ! k =
        \<lparr>file_id = random ex_started_b (generated ex_started_b + k), fileIndex = k,
         lastModifiedDate = raw_lastModifiedDate ([ex_a, ex_b] ! k),
         file_name = raw_name ([ex_a, ex_b] ! k), file_size = raw_size ([ex_a, ex_b] ! k),
         file_type = raw_type ([ex_a, ex_b] ! k),
         progress = \<lparr>status = Queue,
                     data = Some \<lparr>percentage = Fin 0, speed = None, speedHuman = None\<rparr>\<rparr>\<rparr>"
    by (elim conjE)
  from this[rule_format, OF one] a have e: "map (heap ?s') (files ?s') ! 1 =
     \<lparr>file_id = ''idc'', fileIndex = 1, lastModifiedDate = 0, file_name = ''b.txt'',
      file_size = 200, file_type = ''text/plain'',
      progress = \<lparr>status = Queue,
                  data = Some \<lparr>percentage = Fin 0, speed = None, speedHuman = None\<rparr>\<rparr>\<rparr>"
    by (simp add: ex_ids_def ex_b_def)
  from c a have f: "files ?s' = [Entry 2, Entry 3]"
    by (simp add: upt_conv_Cons)
  from c have "length (serviceEvents ?s') =
      length (serviceEvents ex_started_b) + length (map (heap ?s') (files ?s')) + 1"
    by simp
  with f have l: "length (serviceEvents ?s') = length (serviceEvents ex_started_b) + 3"
    by simp
  from one e f l show ?thesis by blast
qed

subsection \<open>unsubscribe and cancelAll\<close>

lemma unsubscribe_fields [simp]:
  "serviceEvents (unsubscribe sub s) = serviceEvents s"
  "heap (unsubscribe sub s) = heap s" "files (unsubscribe sub s) = files s"
  "uploads (unsubscribe sub s) = uploads s" "fileList (unsubscribe sub s) = fileList s"
  "allocated (unsubscribe sub s) = allocated s" "random (unsubscribe sub s) = random s"
  "generated (unsubscribe sub s) = generated s"
  "length (subscriptions (unsubscribe sub s)) = length (subscriptions s)"
  by (simp_all add: unsubscribe_def)

lemma unsubscribe_stops:
  "sub < length (subscriptions s) \<Longrightarrow>
     closed (subscriptions (unsubscribe sub s) ! sub) \<and>
     aborted (subscriptions (unsubscribe sub s) ! sub)"
  by (simp add: unsubscribe_def teardown_def)

lemma unsubscribe_keeps_stopped:
  assumes "k < length (subscriptions s)" "closed (subscriptions s ! k)" "aborted (subscriptions s ! k)"
  shows "closed (subscriptions (unsubscribe sub s) ! k) \<and>
         aborted (subscriptions (unsubscribe sub s) ! k)"
  using assms by (simp add: unsubscribe_def teardown_def nth_list_update)

lemma cancelAll_forEach_frame:
  "heap (cancelAll_forEach us s) = heap s \<and> files (cancelAll_forEach us s) = files s \<and>
   uploads (cancelAll_forEach us s) = uploads s \<and>
   fileList (cancelAll_forEach us s) = fileList s \<and>
   length (subscriptions (cancelAll_forEach us s)) = length (subscriptions s)"
  by (induction us arbitrary: s) (simp_all add: Let_def)

lemma cancelAll_forEach_events:
  "serviceEvents (cancelAll_forEach us s) =
     serviceEvents s @
     map (\<lambda>u. \<lparr>out_type = Ev_cancelled, out_file = Some (heap s (up_file u))\<rparr>) us"
  by (induction us arbitrary: s) (simp_all add: Let_def)

lemma cancelAll_forEach_keeps_stopped:
  assumes "k < length (subscriptions s)" "closed (subscriptions s ! k)" "aborted (subscriptions s ! k)"
  shows "closed (subscriptions (cancelAll_forEach us s) ! k) \<and>
         aborted (subscriptions (cancelAll_forEach us s) ! k)"
  using assms
proof (induction us arbitrary: s)
  case Nil
  then show ?case by simp
next
  case (Cons u us)
  let ?s2 = "emit \<lparr>out_type = Ev_cancelled, out_file = Some (heap (unsubscribe (up_sub u) s) (up_file u))\<rparr>
      (unsubscribe (up_sub u) s)"
  have "k < length (subscriptions ?s2)" using Cons.prems by simp
  moreover have "closed (subscriptions ?s2 ! k)" "aborted (subscriptions ?s2 ! k)"
    using unsubscribe_keeps_stopped[OF Cons.prems] by simp_all
  ultimately show ?case using Cons.IH[of ?s2] by (simp add: Let_def)
qed

lemma cancelAll_forEach_stops:
  assumes "u \<in> set us" "up_sub u < length (subscriptions s)"
  shows "closed (subscriptions (cancelAll_forEach us s) ! up_sub u) \<and>
         aborted (subscriptions (cancelAll_forEach us s) ! up_sub u)"
  using assms
proof (induction us arbitrary: s)
  case Nil
  then show ?case by simp
next
  case (Cons v us)
  let ?s2 = "emit \<lparr>out_type = Ev_cancelled, out_file = Some (heap (unsubscribe (up_sub v) s) (up_file v))\<rparr>
      (unsubscribe (up_sub v) s)"
  have len: "up_sub u < length (subscriptions ?s2)" using Cons.prems by simp
  show ?case
  proof (cases "u = v")
    case True
    then have "closed (subscriptions ?s2 ! up_sub u)" "aborted (subscriptions ?s2 ! up_sub u)"
      using unsubscribe_stops[of "up_sub v" s] Cons.prems by simp_all
    from cancelAll_forEach_keeps_stopped[OF len this] show ?thesis by (simp add: Let_def)
  next
    case False
    with Cons.prems have "u \<in> set us" by simp
    from Cons.IH[OF this len] show ?thesis by (simp add: Let_def)
  qed
qed

text \<open>
  Claim C6, as amended. \<open>K\<close> counts the jobs in the job table, whatever has become of
  their runs: a job stays there when its run completes or fails at \<^verbatim>\<open>send\<close>. cancelAll
  emits exactly \<open>K\<close> \<^verbatim>\<open>cancelled\<close> events, one per job in order, each carrying the entry of
  that job as it is then; it stops the run of every job; afterwards the job table and the
  entry list are empty and the raw file list is \<^verbatim>\<open>null\<close>, not an empty list.
\<close>

theorem C6_cancelAll:
  assumes "in_type event = In_cancelAll"
  shows "\<exists>s'. dispatch e event s = Inr s' \<and>
           serviceEvents s' =
             serviceEvents s @
             map (\<lambda>u. \<lparr>out_type = Ev_cancelled, out_file = Some (heap s (up_file u))\<rparr>) (uploads s) \<and>
           length (serviceEvents s') = length (serviceEvents s) + length (uploads s) \<and>
           uploads s' = [] \<and> files s' = [] \<and> fileList s' = FL_null \<and>
           (\<forall>u\<in>set (uploads s). up_sub u < length (subscriptions s) \<longrightarrow>
              closed (subscriptions s' ! up_sub u) \<and> aborted (subscriptions s' ! up_sub u))"
proof -
  let ?s1 = "cancelAll_forEach (uploads s) s"
  let ?s' = "?s1\<lparr>uploads := [], fileList := FL_null, files := []\<rparr>"
  have "dispatch e event s = Inr ?s'"
    using assms by (simp add: dispatch_def)
  moreover have "serviceEvents ?s' = serviceEvents s @
      map (\<lambda>u. \<lparr>out_type = Ev_cancelled, out_file = Some (heap s (up_file u))\<rparr>) (uploads s)"
    by (simp add: cancelAll_forEach_events)
  moreover have "\<forall>u\<in>set (uploads s). up_sub u < length (subscriptions s) \<longrightarrow>
      closed (subscriptions ?s' ! up_sub u) \<and> aborted (subscriptions ?s' ! up_sub u)"
    using cancelAll_forEach_stops[of _ "uploads s" s] by simp
  ultimately show ?thesis by simp
qed

theorem C6_cancelAll_witness:
  "in_type (ex_input In_cancelAll) = In_cancelAll \<and>
   \<lparr>up_file = Entry 1, up_sub = 1\<rparr> \<in> set (uploads ex_started_all) \<and>
   (1::nat) < length (subscriptions ex_started_all) \<and>
   (\<exists>s'. dispatch ex_env (ex_input In_cancelAll) ex_started_all = Inr s' \<and>
      serviceEvents s' =
        serviceEvents ex_started_all @
        [\<lparr>out_type = Ev_cancelled, out_file = Some (heap ex_started_all (Entry 0))\<rparr>,
         \<lparr>out_type = Ev_cancelled, out_file = Some (heap ex_started_all (Entry 1))\<rparr>] \<and>
      uploads s' = [] \<and> files s' = [] \<and> fileList s' = FL_null \<and>
      closed (subscriptions s' ! 1) \<and> aborted (subscriptions s' ! 1))"
proof -
  have h: "in_type (ex_input In_cancelAll) = In_cancelAll"
    by (simp add: ex_input_def)
  have u: "uploads ex_started_all = [\<lparr>up_file = Entry 0, up_sub = 0\<rparr>, \<lparr>up_file = Entry 1, up_sub = 1\<rparr>]"
    "length (subscriptions ex_started_all) = 2"
    by (simp_all add: ex_started_all_eq)
  from C6_cancelAll[OF h, of ex_env ex_started_all] h u show ?thesis
    by auto
qed

text \<open>
  Claim C6 as written counts the active jobs. After the upload of \<^verbatim>\<open>idb\<close> has run to the
  end no run is active, yet its job is still in the job table: cancelAll emits one
  \<^verbatim>\<open>cancelled\<close> event, carrying the entry with status Done, where the claim has none. The
  raw file list is left \<^verbatim>\<open>null\<close>.
\<close>

theorem C6_counterexample:
  "filter (\<lambda>u. live ex_done_b (up_sub u)) (uploads ex_done_b) = [] \<and>
   map (\<lambda>u. file_id (heap ex_done_b (up_file u))) (uploads ex_done_b) = [''idb''] \<and>
   entry_status ex_done_b (Entry 1) = Done \<and>
   (\<exists>s'. dispatch ex_env (ex_input In_cancelAll) ex_done_b = Inr s' \<and>
      drop (length (serviceEvents ex_done_b)) (serviceEvents s') =
        [\<lparr>out_type = Ev_cancelled, out_file = Some (heap ex_done_b (Entry 1))\<rparr>] \<and>
      fileList s' = FL_null)"
  by (simp add: ex_done_b_def ex_started_b_eq ex_queued_eq service_defs ex_env_def ex_input_def
      queued_entry_def live_def entry_status_def)

text \<open>
  Claim C1 fails on the code. Entries \<^verbatim>\<open>ida\<close> and \<^verbatim>\<open>idb\<close> are queued and only \<^verbatim>\<open>idb\<close> is
  started, so its job is at position 0 of the job table. Cancelling \<^verbatim>\<open>idb\<close> removes
  position 0 of the entry list and of the raw file list: entry \<^verbatim>\<open>ida\<close> and file
  \<^verbatim>\<open>a.txt\<close> go, the cancelled entry \<^verbatim>\<open>idb\<close> stays.
\<close>

theorem C1_cancel_removes_other_entry:
  "map (\<lambda>r. file_id (heap ex_started_b r)) (files ex_started_b) = [''ida'', ''idb''] \<and>
   fileList ex_started_b = FL_FileList [ex_a, ex_b] \<and>
   map (\<lambda>u. file_id (heap ex_started_b (up_file u))) (uploads ex_started_b) = [''idb''] \<and>
   (\<exists>s'. dispatch ex_env ((ex_input In_cancel)\<lparr>in_id := Some ''idb''\<rparr>) ex_started_b = Inr s' \<and>
      map (\<lambda>r. file_id (heap s' r)) (files s') = [''idb''] \<and>
      fileList s' = FL_Array [ex_b] \<and>
      uploads s' = [] \<and>
      map out_type (serviceEvents s') =
        map out_type (serviceEvents ex_started_b) @ [Ev_cancelled])"
  by (simp add: ex_started_b_eq ex_queued_eq service_defs ex_env_def ex_input_def queued_entry_def)

section \<open>Properties of a run\<close>

text \<open>
  Claim C2 fails on the code. Three ticks arrive one second apart with 1000, 2000 and
  3000 bytes loaded. The closure keeps in \<^verbatim>\<open>load\<close> the previous difference, not the
  previous count, so the third tick reports 3000 - 1000 = 2000 bytes per second, where
  the bytes since the previous tick give 1000.
\<close>

theorem C2_third_tick_speed:
  "map event_speed
     (drop (length (serviceEvents ex_started_b))
        (serviceEvents (xhr_upload_events ex_ticks 0 ex_started_b))) =
     [Some (Fin 1000), Some (Fin 1000), Some (Fin 2000)] \<and>
   instantaneous_speed 2000 3000 2000 3000 = Fin 1000"
  by (simp add: ex_ticks_def ex_started_b_eq ex_queued_eq service_defs queued_entry_def
      event_speed_def instantaneous_speed_def parseInt_def trunc_int_def
      Math_round_def)

lemma xhr_upload_event_frame:
  "uploads (xhr_upload_event t sub ev s) = uploads s \<and>
   files (xhr_upload_event t sub ev s) = files s \<and>
   fileList (xhr_upload_event t sub ev s) = fileList s \<and>
   length (subscriptions (xhr_upload_event t sub ev s)) = length (subscriptions s) \<and>
   file_id (heap (xhr_upload_event t sub ev s) r) = file_id (heap s r)"
  by (simp add: xhr_upload_event_def on_progress_def on_load_def observer_next_def
      observer_complete_def unsubscribe_def emit_def Let_def split: transport_event.splits)




lemma load_live:
  fixes t :: int
  assumes "live s sub"
  defines "f \<equiv> run_file (subscriptions s ! sub)"
  defines "s' \<equiv> xhr_upload_event t sub Load s"
  shows "progress (heap s' f) = done_progress"
    and "serviceEvents s' = serviceEvents s @ [\<lparr>out_type = Ev_done, out_file = Some (heap s' f)\<rparr>]"
    and "closed (subscriptions s' ! sub)" and "aborted (subscriptions s' ! sub)"
    and "sub < length (subscriptions s')"
  using assms(1) unfolding s'_def f_def live_def
  by (simp_all add: xhr_upload_event_def on_load_def observer_next_def observer_complete_def
      unsubscribe_def teardown_def emit_def Let_def done_progress_def)











subsection \<open>Exceptions of the request\<close>








lemma splice1_length: "index < length xs \<Longrightarrow> length (splice1 index xs) = length xs - 1"
  by (simp add: splice1_def)

lemma dispatch_cancel_found:
  assumes "in_type event = In_cancel" "in_id event = Some i" "i \<noteq> []"
    and "findIndex (\<lambda>upload. file_id (heap s (up_file upload)) = i) (uploads s) = Some index"
  shows "serviceEvents (state_after (dispatch e event s)) =
           serviceEvents s @
           [\<lparr>out_type = Ev_cancelled, out_file = Some (heap s (up_file (uploads s ! index)))\<rparr>] \<and>
         uploads (state_after (dispatch e event s)) = splice1 index (uploads s)"
  using assms
  by (simp add: dispatch_def state_after_def Let_def split: sum.splits)

text \<open>
  Claim C3, as amended. When the run of a tracked job completes (load: it emits \<^verbatim>\<open>done\<close>),
  the job table is unchanged. A cancel command for the id of that entry then still finds a
  job with that id, emits a \<^verbatim>\<open>cancelled\<close> event carrying its entry and removes that job
  from the job table.
\<close>

theorem C3_completed_job_stays_tracked:
  fixes t :: int and e :: env
  assumes "in_type event = In_cancel" and "in_id event = Some i" and "i \<noteq> []"
    and "u \<in> set (uploads s)" and "file_id (heap s (up_file u)) = i"
    and "live s (up_sub u)" and "run_file (subscriptions s ! up_sub u) = up_file u"
  defines "s_done \<equiv> xhr_upload_event t (up_sub u) Load s"
  defines "s' \<equiv> state_after (dispatch e event s_done)"
  shows "serviceEvents s_done =
           serviceEvents s @ [\<lparr>out_type = Ev_done, out_file = Some (heap s_done (up_file u))\<rparr>] \<and>
         uploads s_done = uploads s \<and>
         (\<exists>index<length (uploads s).
            serviceEvents s' =
              serviceEvents s_done @
              [\<lparr>out_type = Ev_cancelled,
                out_file = Some (heap s_done (up_file (uploads s ! index)))\<rparr>] \<and>
            file_id (heap s_done (up_file (uploads s ! index))) = i \<and>
            uploads s' = splice1 index (uploads s) \<and>
            length (uploads s') = length (uploads s) - 1)"
proof -
  have up: "uploads s_done = uploads s"
    and fid: "\<And>r. file_id (heap s_done r) = file_id (heap s r)"
    using xhr_upload_event_frame[of t "up_sub u" Load s] by (simp_all add: s_done_def)
  have ev: "serviceEvents s_done =
      serviceEvents s @ [\<lparr>out_type = Ev_done, out_file = Some (heap s_done (up_file u))\<rparr>]"
    using load_live(2)[OF assms(6), of t] assms(7) by (simp add: s_done_def)
  have "\<exists>x\<in>set (uploads s_done). file_id (heap s_done (up_file x)) = i"
    using assms(4,5) up fid by auto
  then obtain index where
    index: "findIndex (\<lambda>upload. file_id (heap s_done (up_file upload)) = i) (uploads s_done) = Some index"
    using findIndex_Some_ex[of "uploads s_done" "\<lambda>upload. file_id (heap s_done (up_file upload)) = i"]
    by blast
  from findIndex_Some[OF index] have i: "index < length (uploads s)"
    "file_id (heap s_done (up_file (uploads s ! index))) = i"
    using up by simp_all
  from dispatch_cancel_found[OF assms(1-3) index, of e] up
  have "serviceEvents s' = serviceEvents s_done @
      [\<lparr>out_type = Ev_cancelled, out_file = Some (heap s_done (up_file (uploads s ! index)))\<rparr>]"
    "uploads s' = splice1 index (uploads s)"
    by (simp_all add: s'_def)
  with i ev up splice1_length[OF i(1)] show ?thesis by auto
qed

theorem C3_completed_job_stays_tracked_witness:
  "in_type ex_cancel_b = In_cancel \<and> in_id ex_cancel_b = Some ''idb'' \<and> ''idb'' \<noteq> [] \<and>
   \<lparr>up_file = Entry 1, up_sub = 0\<rparr> \<in> set (uploads ex_started_b) \<and>
   file_id (heap ex_started_b (Entry 1)) = ''idb'' \<and> live ex_started_b 0 \<and>
   run_file (subscriptions ex_started_b ! 0) = Entry 1 \<and>
   uploads (xhr_upload_event 500 0 Load ex_started_b) = uploads ex_started_b \<and>
   (\<exists>index<length (uploads ex_started_b).
      serviceEvents (state_after (dispatch ex_env ex_cancel_b (xhr_upload_event 500 0 Load ex_started_b))) =
        serviceEvents (xhr_upload_event 500 0 Load ex_started_b) @
        [\<lparr>out_type = Ev_cancelled,
          out_file = Some (heap (xhr_upload_event 500 0 Load ex_started_b)
                             (up_file (uploads ex_started_b ! index)))\<rparr>])"
proof -
  have h: "in_type ex_cancel_b = In_cancel" "in_id ex_cancel_b = Some ''idb''" "''idb'' \<noteq> []"
    by (simp_all add: ex_cancel_b_def ex_input_def)
  have g: "\<lparr>up_file = Entry 1, up_sub = 0\<rparr> \<in> set (uploads ex_started_b)"
    "file_id (heap ex_started_b (up_file \<lparr>up_file = Entry 1, up_sub = 0\<rparr>)) = ''idb''"
    "live ex_started_b (up_sub \<lparr>up_file = Entry 1, up_sub = 0\<rparr>)"
    "run_file (subscriptions ex_started_b ! up_sub \<lparr>up_file = Entry 1, up_sub = 0\<rparr>) =
       up_file \<lparr>up_file = Entry 1, up_sub = 0\<rparr>"
    by (simp_all add: ex_started_b_eq ex_queued_eq live_def queued_entry_def)
  from C3_completed_job_stays_tracked[OF h g, of 500 ex_env] h g show ?thesis
    by auto
qed

text \<open>
  Claim C3 as written: after its run has completed, the job of \<^verbatim>\<open>idb\<close> is still in the
  job table, and cancelling \<^verbatim>\<open>idb\<close> emits a \<^verbatim>\<open>cancelled\<close> event after the \<^verbatim>\<open>done\<close> event.
\<close>

theorem C3_counterexample:
  "uploads (xhr_upload_event 500 0 Load ex_started_b) = [\<lparr>up_file = Entry 1, up_sub = 0\<rparr>] \<and>
   map out_type
     (serviceEvents
        (state_after
           (dispatch ex_env ((ex_input In_cancel)\<lparr>in_id := Some ''idb''\<rparr>)
              (xhr_upload_event 500 0 Load ex_started_b)))) =
     [Ev_addedToQueue, Ev_addedToQueue, Ev_allAddedToQueue, Ev_start, Ev_done, Ev_cancelled]"
  by (simp add: ex_started_b_eq ex_queued_eq service_defs ex_env_def ex_input_def queued_entry_def)

end
